theory Spec2Isabelle
  imports Main "HOL-Library.AList"
begin

section \<open>The manifest document\<close>

text \<open>
  The transformer of \<^verbatim>\<open>WebExtensionTransformer.js\<close> works on the manifest as
  \<^verbatim>\<open>json-source-map\<close> parsed it: a tree of JSON values that the code mutates in
  place. The tree has no sharing, so in-place mutation is modelled by rebuilding the
  enclosing values. An object is the list of its own properties in enumeration order.
  Assigning to an existing property keeps its position and assigning to a new property
  whose name is not an array index appends it, which is what \<open>AList.update\<close> does.
  Numbers are kept as integers: the code only compares \<^verbatim>\<open>manifest_version\<close>.
\<close>

datatype json =
  JNull
  | JBool bool
  | JNum int
  | JStr string
  | JArr "json list"
  | JObj "(string \<times> json) list"

type_synonym object = "(string \<times> json) list"

datatype kind = KObject | KArray | KString | KNumber | KBool | KNull

fun kind_of :: "json \<Rightarrow> kind" where
  "kind_of JNull = KNull"
| "kind_of (JBool b) = KBool"
| "kind_of (JNum n) = KNumber"
| "kind_of (JStr s) = KString"
| "kind_of (JArr xs) = KArray"
| "kind_of (JObj kvs) = KObject"

text \<open>A JSON pointer as a list of segments, and the value a document holds there.\<close>

datatype seg = Key string | Index nat

fun get_path :: "json \<Rightarrow> seg list \<Rightarrow> json option" where
  "get_path v [] = Some v"
| "get_path (JObj kvs) (Key k # p) =
     (case map_of kvs k of None \<Rightarrow> None | Some v \<Rightarrow> get_path v p)"
| "get_path (JArr xs) (Index i # p) =
     (if i < length xs then get_path (xs ! i) p else None)"
| "get_path v (s # p) = None"

subsection \<open>Strings\<close>

text \<open>\<^verbatim>\<open>Array.prototype.join\<close> on an array of strings.\<close>

fun join :: "string \<Rightarrow> string list \<Rightarrow> string" where
  "join sep [] = []"
| "join sep [x] = x"
| "join sep (x # y # ys) = x @ sep @ join sep (y # ys)"

text \<open>The decimal numeral of an array index, as a template literal prints it.\<close>

definition digit :: "nat \<Rightarrow> char" where
  "digit d = ''0123456789'' ! d"

function show_nat :: "nat \<Rightarrow> string" where
  "show_nat n = (if n < 10 then [digit n] else show_nat (n div 10) @ [digit (n mod 10)])"
  by pat_completeness auto
termination
  by (relation "measure (\<lambda>n. n)") auto

declare show_nat.simps [simp del]

text \<open>
  JavaScript's white space among the code units below 256, for \<^verbatim>\<open>trim\<close> and the
  regular expression \<^verbatim>\<open>\s\<close>.
\<close>

definition is_space :: "char \<Rightarrow> bool" where
  "is_space c = (c = CHR 0x09 \<or> c = CHR 0x0A \<or> c = CHR 0x0B \<or> c = CHR 0x0C
     \<or> c = CHR 0x0D \<or> c = CHR 0x20 \<or> c = CHR 0xA0)"

definition trim :: "string \<Rightarrow> string" where
  "trim s = rev (dropWhile is_space (rev (dropWhile is_space s)))"

text \<open>\<^verbatim>\<open>s.split(c)\<close> for a separator of one character.\<close>

fun split_on :: "char \<Rightarrow> string \<Rightarrow> string list" where
  "split_on c [] = [[]]"
| "split_on c (x # xs) =
     (if x = c then [] # split_on c xs
      else (case split_on c xs of [] \<Rightarrow> [[x]] | w # ws \<Rightarrow> (x # w) # ws))"

text \<open>\<^verbatim>\<open>s.split(/\s+/g)\<close>: the pieces between maximal runs of white space.\<close>

fun split_spaces :: "string \<Rightarrow> string list" where
  "split_spaces [] = [[]]"
| "split_spaces (x # xs) =
     (if is_space x then
        (case xs of
           [] \<Rightarrow> [[], []]
         | y # ys \<Rightarrow> if is_space y then split_spaces xs else [] # split_spaces xs)
      else (case split_spaces xs of [] \<Rightarrow> [[x]] | w # ws \<Rightarrow> (x # w) # ws))"

section \<open>The content security policy patch\<close>

text \<open>
  A parsed policy is a JavaScript object from directive names to arrays of tokens,
  again as the list of its properties in enumeration order. Property names that are
  array indices (canonical decimal numerals below \<open>2^32 - 1\<close>) are enumerated first,
  in ascending order; every other name is enumerated in the order of creation.
\<close>

type_synonym csp = "(string \<times> string list) list"

definition is_digit :: "char \<Rightarrow> bool" where
  "is_digit c = (c \<in> set ''0123456789'')"

definition digit_value :: "char \<Rightarrow> int" where
  "digit_value c = of_char c - 48"

definition int_of_digits :: "string \<Rightarrow> int" where
  "int_of_digits s = foldl (\<lambda>n c. 10 * n + digit_value c) 0 s"

definition is_array_index :: "string \<Rightarrow> bool" where
  "is_array_index k =
     (k \<noteq> [] \<and> list_all is_digit k \<and> (k = ''0'' \<or> hd k \<noteq> CHR ''0'')
      \<and> int_of_digits k < 4294967295)"

text \<open>Creating the property \<open>k\<close> on an object that does not have it.\<close>

fun add_property :: "string \<Rightarrow> 'v \<Rightarrow> (string \<times> 'v) list \<Rightarrow> (string \<times> 'v) list" where
  "add_property k v [] = [(k, v)]"
| "add_property k v ((k', v') # kvs) =
     (if is_array_index k
        \<and> (\<not> is_array_index k' \<or> int_of_digits k < int_of_digits k')
      then (k, v) # (k', v') # kvs
      else (k', v') # add_property k v kvs)"

text \<open>
  Modelled from the spec: \<^verbatim>\<open>parseCSP\<close> is the default export of the package
  \<^verbatim>\<open>content-security-policy-parser\<close>, which is not among the sources. Section 4.3
  of the specification has it "parse the policy into a mapping from directive name to
  ordered list of source tokens". The policy is cut at every \<^verbatim>\<open>;\<close>; each piece is
  trimmed, an empty piece is dropped, and the rest is cut at runs of white space into
  the directive name and its tokens. The first occurrence of a directive name wins.
\<close>

definition parse_directive :: "csp \<Rightarrow> string \<Rightarrow> csp" where
  "parse_directive result directive =
     (let trimmed = trim directive in
      if trimmed = [] then result
      else (case split_spaces trimmed of
              [] \<Rightarrow> result
            | key # split \<Rightarrow>
                if map_of result key = None then add_property key split result
                else result))"

definition parseCSP :: "string \<Rightarrow> csp" where
  "parseCSP policy = foldl parse_directive [] (split_on CHR '';'' policy)"

definition unsafe_eval :: string where
  "unsafe_eval = CHR 0x27 # ''unsafe-eval'' @ [CHR 0x27]"

definition default_script_src :: string where
  "default_script_src = CHR 0x27 # ''self' 'unsafe-eval' blob: filesystem:''"

text \<open>The body of the loop \<^verbatim>\<open>for (const k in csp)\<close>: one directive is appended.\<close>

definition append_directive :: "string \<Rightarrow> string \<times> string list \<Rightarrow> string" where
  "append_directive policy kv = policy @ fst kv @ '' '' @ join '' '' (snd kv) @ '';''"

definition default_policy :: string where
  "default_policy =
     ''script-src 'self' 'unsafe-eval' blob: filesystem:;''
     @ ''object-src 'self' blob: filesystem:;''"

text \<open>
  \<^verbatim>\<open>cspPatchHMR(policy)\<close>, lines 299 to 319. The argument is \<open>None\<close> for
  \<^verbatim>\<open>undefined\<close>; the empty string is falsy as well. The array literal of line 304
  has a single element, the whole default source list as one string.
\<close>

definition cspPatchHMR :: "string option \<Rightarrow> string" where
  "cspPatchHMR policy =
     (case policy of
        None \<Rightarrow> default_policy
      | Some p \<Rightarrow>
          if p = [] then default_policy
          else
            let csp = parseCSP p;
                csp1 = (if map_of csp ''script-src'' = None
                        then AList.update ''script-src'' [default_script_src] csp
                        else csp);
                csp2 = (case map_of csp1 ''script-src'' of
                          None \<Rightarrow> csp1
                        | Some srcs \<Rightarrow>
                            if unsafe_eval \<in> set srcs then csp1
                            else AList.update ''script-src'' (srcs @ [unsafe_eval]) csp1)
            in foldl append_directive [] csp2)"

section \<open>Dependencies, source locations and the host\<close>

text \<open>
  An entry of the source pointer index (\<^verbatim>\<open>parsed.pointers\<close>): the ranges of the
  key token and of the value token. The index is a partial map from pointer strings.
\<close>

datatype mapping = Mapping (key_range: "(nat \<times> nat) option") (value_range: "nat \<times> nat")

type_synonym pointers = "string \<Rightarrow> mapping option"

text \<open>
  Modelled from the spec: \<^verbatim>\<open>getJSONSourceLocation\<close> belongs to the package
  \<^verbatim>\<open>@parcel/diagnostic\<close>, which is not among the sources. The specification only
  says that a location pins a diagnostic or a dependency to the key or to the value of
  a JSON node, so the result is kept symbolic: the index entry that was passed and the
  token that was asked for (\<^verbatim>\<open>'key'\<close>, \<^verbatim>\<open>'value'\<close>, or no second argument).
\<close>

datatype part = KeyPart | ValuePart | WholePart

datatype source_location = JSONSourceLocation "mapping option" part

definition getJSONSourceLocation :: "mapping option \<Rightarrow> part \<Rightarrow> source_location" where
  "getJSONSourceLocation pos type = JSONSourceLocation pos type"

text \<open>The options of \<^verbatim>\<open>asset.addURLDependency\<close>; an option that is not passed is \<open>None\<close>.\<close>

record dep_env =
  env_context :: string
  sourceType :: "string option"

record dependency =
  specifier :: string
  needsStableName :: "bool option"
  pipeline :: "string option"
  loc :: "(string \<times> source_location) option"
  resolveFrom :: "string option"
  env :: "dep_env option"

record asset =
  filePath :: string
  code :: string
  asset_pipeline :: "string option"
  dependencies :: "dependency list"

record diagnostic =
  message :: string
  origin :: string
  frame_filePath :: string
  highlight :: source_location
  highlight_message :: string

text \<open>
  The ways a call can end without a result. \<open>ThrowableDiagnostic\<close> is the exception
  the transformer throws itself and \<open>SchemaViolation\<close> the one of the schema check.
  \<open>CollaboratorFailure\<close> is an exception of the file system, of the glob expansion
  or of the JSON parser, which the code lets through. \<open>OutsideSchema\<close> stands for a
  document whose shape is not the one the walk is written for: the schemas of
  \<^verbatim>\<open>./schema\<close> are not among the sources, the transformer checks the document
  against them before it collects dependencies, and the model does not follow
  JavaScript's coercions on values of another type.
\<close>

datatype error =
  ThrowableDiagnostic diagnostic
  | SchemaViolation "diagnostic list"
  | CollaboratorFailure
  | OutsideSchema

datatype schema = VersionSchema | MV2Schema | MV3Schema

text \<open>
  What the transformer takes from its surroundings: the file system of the asset, the
  functions of Node's \<^verbatim>\<open>path\<close> module, the glob expansion, the token that
  \<^verbatim>\<open>addURLDependency\<close> returns for a dependency, the escaping of the \<^verbatim>\<open>md\<close>
  template tag, the parser, the schema check, the serialiser, the name of the module
  file and the text of the bundled background script. \<open>glob_join dir x\<close> stands for
  \<^verbatim>\<open>glob(path.join(dir, x), fs, {})\<close> on the manifest value \<open>x\<close>.
\<close>

record host =
  fs_exists :: "string \<Rightarrow> bool"
  fs_readdir :: "string \<Rightarrow> string list option"
  glob_join :: "string \<Rightarrow> json \<Rightarrow> string list option"
  path_join :: "string \<Rightarrow> string \<Rightarrow> string"
  path_dirname :: "string \<Rightarrow> string"
  path_relative :: "string \<Rightarrow> string \<Rightarrow> string"
  path_extname :: "string \<Rightarrow> string"
  token :: "dependency \<Rightarrow> string"
  escapeMarkdown :: "string \<Rightarrow> string"
  jsm_parse :: "string \<Rightarrow> (json \<times> pointers) option"
  validateSchema :: "schema \<Rightarrow> json \<Rightarrow> string \<Rightarrow> string \<Rightarrow> diagnostic list"
  JSON_stringify :: "json \<Rightarrow> string"
  module_filename :: string
  AUTORELOAD_BG :: string

definition addURLDependency :: "host \<Rightarrow> asset \<Rightarrow> dependency \<Rightarrow> string \<times> asset" where
  "addURLDependency h a d = (token h d, a\<lparr>dependencies := dependencies a @ [d]\<rparr>)"

definition stable_dep :: "string \<Rightarrow> (string \<times> source_location) option \<Rightarrow> string option \<Rightarrow> dependency" where
  "stable_dep url l p =
     \<lparr>specifier = url, needsStableName = Some True, pipeline = p, loc = l,
      resolveFrom = None, env = None\<rparr>"

text \<open>Loops whose body can throw: the first exception ends the loop.\<close>

fun for_indexed ::
  "(nat \<Rightarrow> 'a \<Rightarrow> 's \<Rightarrow> error + ('b \<times> 's)) \<Rightarrow> nat \<Rightarrow> 'a list \<Rightarrow> 's \<Rightarrow> error + ('b list \<times> 's)"
where
  "for_indexed f i [] s = Inr ([], s)"
| "for_indexed f i (x # xs) s =
     (case f i x s of
        Inl e \<Rightarrow> Inl e
      | Inr (y, s') \<Rightarrow>
          (case for_indexed f (Suc i) xs s' of
             Inl e \<Rightarrow> Inl e
           | Inr (ys, s'') \<Rightarrow> Inr (y # ys, s'')))"

fun for_each :: "('a \<Rightarrow> 's \<Rightarrow> error + 's) \<Rightarrow> 'a list \<Rightarrow> 's \<Rightarrow> error + 's" where
  "for_each f [] s = Inr s"
| "for_each f (x # xs) s = (case f x s of Inl e \<Rightarrow> Inl e | Inr s' \<Rightarrow> for_each f xs s')"

section \<open>Collecting the dependencies\<close>

subsection \<open>Localization, lines 54 to 93\<close>

definition locale_diagnostic :: "host \<Rightarrow> string \<Rightarrow> pointers \<Rightarrow> part \<Rightarrow> string \<Rightarrow> string \<Rightarrow> diagnostic" where
  "locale_diagnostic h fp ptrs err default_locale locales =
     \<lparr>message = ''Invalid Web Extension manifest'',
      origin = ''@parcel/transformer-webextension'',
      frame_filePath = fp,
      highlight = getJSONSourceLocation (ptrs ''/default_locale'') err,
      highlight_message =
        ''Localization directory''
        @ escapeMarkdown h (if err = ValuePart then '' for '' @ default_locale else [])
        @ '' does not exist: ''
        @ escapeMarkdown h
            (path_relative h (path_dirname h fp) (path_join h locales default_locale))\<rparr>"

definition locale_dep :: "string \<Rightarrow> dependency" where
  "locale_dep locale = stable_dep (''_locales/'' @ locale @ ''/messages.json'') None (Some ''raw'')"

definition collect_default_locale :: "host \<Rightarrow> pointers \<Rightarrow> object \<Rightarrow> asset \<Rightarrow> error + asset" where
  "collect_default_locale h ptrs program a =
     (case map_of program ''default_locale'' of
        None \<Rightarrow> Inr a
      | Some (JStr default_locale) \<Rightarrow>
          if default_locale = [] then Inr a
          else
            let locales = path_join h (path_dirname h (filePath a)) ''_locales'' in
            if \<not> fs_exists h locales then
              Inl (ThrowableDiagnostic (locale_diagnostic h (filePath a) ptrs KeyPart default_locale locales))
            else if \<not> fs_exists h (path_join h locales default_locale) then
              Inl (ThrowableDiagnostic (locale_diagnostic h (filePath a) ptrs ValuePart default_locale locales))
            else
              (case fs_readdir h locales of
                 None \<Rightarrow> Inl CollaboratorFailure
               | Some entries \<Rightarrow>
                   Inr (foldl (\<lambda>a' locale. snd (addURLDependency h a' (locale_dep locale))) a entries))
      | Some _ \<Rightarrow> Inl OutsideSchema)"

subsection \<open>Content scripts, lines 94 to 122\<close>

definition content_script_dep :: "string \<Rightarrow> pointers \<Rightarrow> nat \<Rightarrow> string \<Rightarrow> nat \<Rightarrow> string \<Rightarrow> dependency" where
  "content_script_dep fp ptrs i k j url =
     stable_dep url
       (Some (fp,
          getJSONSourceLocation
            (ptrs (''/content_scripts/'' @ show_nat i @ ''/'' @ k @ ''/'' @ show_nat j)) ValuePart))
       None"

definition rewrite_asset :: "host \<Rightarrow> pointers \<Rightarrow> nat \<Rightarrow> string \<Rightarrow> nat \<Rightarrow> json \<Rightarrow> asset \<Rightarrow> error + (json \<times> asset)" where
  "rewrite_asset h ptrs i k j v a =
     (case v of
        JStr url \<Rightarrow>
          (let (t, a') = addURLDependency h a (content_script_dep (filePath a) ptrs i k j url)
           in Inr (JStr t, a'))
      | _ \<Rightarrow> Inl OutsideSchema)"

text \<open>The loop over \<^verbatim>\<open>sc[k] || []\<close> for one of the keys \<^verbatim>\<open>css\<close> and \<^verbatim>\<open>js\<close>.\<close>

definition rewrite_assets :: "host \<Rightarrow> pointers \<Rightarrow> nat \<Rightarrow> string \<Rightarrow> object \<Rightarrow> asset \<Rightarrow> error + (object \<times> asset)" where
  "rewrite_assets h ptrs i k sc a =
     (case map_of sc k of
        None \<Rightarrow> Inr (sc, a)
      | Some (JArr assets) \<Rightarrow>
          (case for_indexed (rewrite_asset h ptrs i k) 0 assets a of
             Inl e \<Rightarrow> Inl e
           | Inr (assets', a') \<Rightarrow> Inr (AList.update k (JArr assets') sc, a'))
      | Some _ \<Rightarrow> Inl OutsideSchema)"

definition autoreload_dep :: "host \<Rightarrow> dependency" where
  "autoreload_dep h =
     \<lparr>specifier = ''./runtime/autoreload.js'', needsStableName = None, pipeline = None,
      loc = None, resolveFrom = Some (module_filename h), env = None\<rparr>"

text \<open>
  One round of the loop over \<^verbatim>\<open>program.content_scripts\<close>. The state is the asset and
  the flag \<^verbatim>\<open>needRuntimeBG\<close>.
\<close>

definition content_script :: "host \<Rightarrow> pointers \<Rightarrow> bool \<Rightarrow> nat \<Rightarrow> json \<Rightarrow> asset \<times> bool \<Rightarrow> error + (json \<times> asset \<times> bool)" where
  "content_script h ptrs hot i v s =
     (case v of
        JObj sc \<Rightarrow>
          (case rewrite_assets h ptrs i ''css'' sc (fst s) of
             Inl e \<Rightarrow> Inl e
           | Inr (sc1, a1) \<Rightarrow>
               (case rewrite_assets h ptrs i ''js'' sc1 a1 of
                  Inl e \<Rightarrow> Inl e
                | Inr (sc2, a2) \<Rightarrow>
                    (case map_of sc2 ''js'' of
                       Some (JArr js) \<Rightarrow>
                         if hot \<and> js \<noteq> [] then
                           (let (t, a3) = addURLDependency h a2 (autoreload_dep h)
                            in Inr (JObj (AList.update ''js'' (JArr (js @ [JStr t])) sc2), a3, True))
                         else Inr (JObj sc2, a2, snd s)
                     | _ \<Rightarrow> Inr (JObj sc2, a2, snd s))))
      | _ \<Rightarrow> Inl OutsideSchema)"

definition collect_content_scripts :: "host \<Rightarrow> pointers \<Rightarrow> bool \<Rightarrow> object \<Rightarrow> asset \<Rightarrow> error + (object \<times> asset \<times> bool)" where
  "collect_content_scripts h ptrs hot program a =
     (case map_of program ''content_scripts'' of
        None \<Rightarrow> Inr (program, a, False)
      | Some (JArr scs) \<Rightarrow>
          (case for_indexed (content_script h ptrs hot) 0 scs (a, False) of
             Inl e \<Rightarrow> Inl e
           | Inr (scs', a', needRuntimeBG) \<Rightarrow>
               Inr (AList.update ''content_scripts'' (JArr scs') program, a', needRuntimeBG))
      | Some _ \<Rightarrow> Inl OutsideSchema)"

subsection \<open>Dictionaries, lines 123 to 164\<close>

definition dictionary_diagnostic :: "string \<Rightarrow> source_location \<Rightarrow> diagnostic" where
  "dictionary_diagnostic fp sourceLoc =
     \<lparr>message = ''Invalid Web Extension manifest'',
      origin = ''@parcel/transformer-webextension'',
      frame_filePath = fp,
      highlight = sourceLoc,
      highlight_message = ''Dictionaries must be .dic files''\<rparr>"

text \<open>\<^verbatim>\<open>dictFile.slice(0, -4) + '.aff'\<close>; the subtraction on \<open>nat\<close> stops at zero as \<^verbatim>\<open>slice\<close> does.\<close>

definition aff_file :: "string \<Rightarrow> string" where
  "aff_file dictFile = take (length dictFile - 4) dictFile @ ''.aff''"

text \<open>One round of \<^verbatim>\<open>for (const dict in program.dictionaries)\<close>.\<close>

definition dictionary_entry :: "host \<Rightarrow> pointers \<Rightarrow> nat \<Rightarrow> string \<times> json \<Rightarrow> asset \<Rightarrow> error + ((string \<times> json) \<times> asset)" where
  "dictionary_entry h ptrs n kv a =
     (let dict = fst kv;
          sourceLoc = getJSONSourceLocation (ptrs (''/dictionaries/'' @ dict)) ValuePart;
          l = (filePath a, sourceLoc)
      in case snd kv of
           JStr dictFile \<Rightarrow>
             if path_extname h dictFile \<noteq> ''.dic'' then
               Inl (ThrowableDiagnostic (dictionary_diagnostic (filePath a) sourceLoc))
             else
               (let (t, a1) = addURLDependency h a (stable_dep dictFile (Some l) None);
                    (u, a2) = addURLDependency h a1 (stable_dep (aff_file dictFile) (Some l) None)
                in Inr ((dict, JStr t), a2))
         | _ \<Rightarrow> Inl OutsideSchema)"

definition collect_dictionaries :: "host \<Rightarrow> pointers \<Rightarrow> object \<Rightarrow> asset \<Rightarrow> error + (object \<times> asset)" where
  "collect_dictionaries h ptrs program a =
     (case map_of program ''dictionaries'' of
        None \<Rightarrow> Inr (program, a)
      | Some (JObj dictionaries) \<Rightarrow>
          (case for_indexed (dictionary_entry h ptrs) 0 dictionaries a of
             Inl e \<Rightarrow> Inl e
           | Inr (dictionaries', a') \<Rightarrow>
               Inr (AList.update ''dictionaries'' (JObj dictionaries') program, a'))
      | Some _ \<Rightarrow> Inl OutsideSchema)"

subsection \<open>Theme icons, lines 165 to 183\<close>

definition browserActionName :: "bool \<Rightarrow> string" where
  "browserActionName isMV2 = (if isMV2 then ''browser_action'' else ''action'')"

definition theme_icon_path :: "host \<Rightarrow> pointers \<Rightarrow> string \<Rightarrow> nat \<Rightarrow> string \<Rightarrow> object \<Rightarrow> asset \<Rightarrow> error + (object \<times> asset)" where
  "theme_icon_path h ptrs name i k themeIcon a =
     (case map_of themeIcon k of
        Some (JStr url) \<Rightarrow>
          (let l = getJSONSourceLocation
                     (ptrs (''/'' @ name @ ''/theme_icons/'' @ show_nat i @ ''/'' @ k)) ValuePart;
               (t, a') = addURLDependency h a (stable_dep url (Some (filePath a, l)) None)
           in Inr (AList.update k (JStr t) themeIcon, a'))
      | _ \<Rightarrow> Inl OutsideSchema)"

definition theme_icon :: "host \<Rightarrow> pointers \<Rightarrow> string \<Rightarrow> nat \<Rightarrow> json \<Rightarrow> asset \<Rightarrow> error + (json \<times> asset)" where
  "theme_icon h ptrs name i v a =
     (case v of
        JObj themeIcon \<Rightarrow>
          (case theme_icon_path h ptrs name i ''light'' themeIcon a of
             Inl e \<Rightarrow> Inl e
           | Inr (themeIcon1, a1) \<Rightarrow>
               (case theme_icon_path h ptrs name i ''dark'' themeIcon1 a1 of
                  Inl e \<Rightarrow> Inl e
                | Inr (themeIcon2, a2) \<Rightarrow> Inr (JObj themeIcon2, a2)))
      | _ \<Rightarrow> Inl OutsideSchema)"

definition collect_theme_icons :: "host \<Rightarrow> pointers \<Rightarrow> bool \<Rightarrow> object \<Rightarrow> asset \<Rightarrow> error + (object \<times> asset)" where
  "collect_theme_icons h ptrs isMV2 program a =
     (let name = browserActionName isMV2 in
      case map_of program name of
        None \<Rightarrow> Inr (program, a)
      | Some (JObj action) \<Rightarrow>
          (case map_of action ''theme_icons'' of
             None \<Rightarrow> Inr (program, a)
           | Some (JArr theme_icons) \<Rightarrow>
               (case for_indexed (theme_icon h ptrs name) 0 theme_icons a of
                  Inl e \<Rightarrow> Inl e
                | Inr (theme_icons', a') \<Rightarrow>
                    Inr (AList.update name
                           (JObj (AList.update ''theme_icons'' (JArr theme_icons') action)) program,
                         a'))
           | Some _ \<Rightarrow> Inl OutsideSchema)
      | Some _ \<Rightarrow> Inl OutsideSchema)"

subsection \<open>Web accessible resources, lines 184 to 216\<close>

text \<open>Registering a list of dependencies in order, as the \<^verbatim>\<open>map\<close> over the glob's files does.\<close>

fun add_dependencies :: "host \<Rightarrow> dependency list \<Rightarrow> asset \<Rightarrow> string list \<times> asset" where
  "add_dependencies h [] a = ([], a)"
| "add_dependencies h (d # ds) a =
     (let (t, a1) = addURLDependency h a d;
          (ts, a2) = add_dependencies h ds a1
      in (t # ts, a2))"

definition resource_dep :: "host \<Rightarrow> string \<Rightarrow> pointers \<Rightarrow> bool \<Rightarrow> nat \<Rightarrow> string \<Rightarrow> dependency" where
  "resource_dep h file ptrs isMV2 i fp =
     stable_dep (path_relative h (path_dirname h file) fp)
       (Some (file,
          getJSONSourceLocation
            (ptrs (''/web_accessible_resources/'' @ show_nat i
                   @ (if isMV2 then [] else ''/resources''))) WholePart))
       None"

definition glob_files :: "host \<Rightarrow> pointers \<Rightarrow> bool \<Rightarrow> nat \<Rightarrow> json \<Rightarrow> asset \<Rightarrow> error + (string list \<times> asset)" where
  "glob_files h ptrs isMV2 i pattern a =
     (case glob_join h (path_dirname h (filePath a)) pattern of
        None \<Rightarrow> Inl CollaboratorFailure
      | Some fps \<Rightarrow> Inr (add_dependencies h (map (resource_dep h (filePath a) ptrs isMV2 i) fps) a))"

fun is_string :: "json \<Rightarrow> bool" where
  "is_string (JStr s) = True"
| "is_string v = False"

text \<open>
  One round of the loop over \<^verbatim>\<open>program.web_accessible_resources\<close>. The result is what
  the round adds to the array \<^verbatim>\<open>war\<close>: the tokens of the files (MV2), or the entry
  with its \<^verbatim>\<open>resources\<close> replaced (MV3).
\<close>

definition web_accessible_resource :: "host \<Rightarrow> pointers \<Rightarrow> bool \<Rightarrow> nat \<Rightarrow> json \<Rightarrow> asset \<Rightarrow> error + (json list \<times> asset)" where
  "web_accessible_resource h ptrs isMV2 i files a =
     (if isMV2 then
        (case files of
           JStr pattern \<Rightarrow>
             (case glob_files h ptrs isMV2 i files a of
                Inl e \<Rightarrow> Inl e
              | Inr (globFiles, a') \<Rightarrow> Inr (map JStr globFiles, a'))
         | _ \<Rightarrow> Inl OutsideSchema)
      else
        (case files of
           JObj entry \<Rightarrow>
             (case map_of entry ''resources'' of
                Some (JArr resources) \<Rightarrow>
                  if list_all is_string resources then
                    (case glob_files h ptrs isMV2 i (JArr resources) a of
                       Inl e \<Rightarrow> Inl e
                     | Inr (globFiles, a') \<Rightarrow>
                         Inr ([JObj (AList.update ''resources'' (JArr (map JStr globFiles)) entry)], a'))
                  else Inl OutsideSchema
              | _ \<Rightarrow> Inl OutsideSchema)
         | _ \<Rightarrow> Inl OutsideSchema))"

definition collect_web_accessible_resources :: "host \<Rightarrow> pointers \<Rightarrow> bool \<Rightarrow> object \<Rightarrow> asset \<Rightarrow> error + (object \<times> asset)" where
  "collect_web_accessible_resources h ptrs isMV2 program a =
     (case map_of program ''web_accessible_resources'' of
        None \<Rightarrow> Inr (program, a)
      | Some (JArr entries) \<Rightarrow>
          (case for_indexed (web_accessible_resource h ptrs isMV2) 0 entries a of
             Inl e \<Rightarrow> Inl e
           | Inr (added, a') \<Rightarrow>
               Inr (AList.update ''web_accessible_resources'' (JArr (concat added)) program, a'))
      | Some _ \<Rightarrow> Inl OutsideSchema)"

subsection \<open>The fixed locations, lines 17 to 36 and 217 to 247\<close>

definition DEP_LOCS :: "string list list" where
  "DEP_LOCS =
     [[''icons''],
      [''browser_action'', ''default_icon''],
      [''browser_action'', ''default_popup''],
      [''page_action'', ''default_icon''],
      [''page_action'', ''default_popup''],
      [''action'', ''default_icon''],
      [''action'', ''default_popup''],
      [''background'', ''scripts''],
      [''background'', ''page''],
      [''chrome_url_overrides''],
      [''devtools_page''],
      [''options_ui'', ''page''],
      [''sidebar_action'', ''default_icon''],
      [''sidebar_action'', ''default_panel''],
      [''storage'', ''managed_schema''],
      [''theme'', ''images'', ''theme_frame''],
      [''theme'', ''images'', ''additional_backgrounds''],
      [''user_scripts'', ''api_script'']]"

definition location_of :: "string list \<Rightarrow> string" where
  "location_of l = ''/'' @ join ''/'' l"

definition fixed_dep :: "host \<Rightarrow> string \<Rightarrow> pointers \<Rightarrow> string \<Rightarrow> string \<Rightarrow> dependency" where
  "fixed_dep h fp ptrs pointer url =
     stable_dep url
       (Some (fp, getJSONSourceLocation (ptrs pointer) ValuePart))
       (if path_extname h url = ''.json'' then Some ''url'' else None)"

definition rewrite_string :: "host \<Rightarrow> pointers \<Rightarrow> string \<Rightarrow> json \<Rightarrow> asset \<Rightarrow> error + (json \<times> asset)" where
  "rewrite_string h ptrs pointer v a =
     (case v of
        JStr url \<Rightarrow>
          (let (t, a') = addURLDependency h a (fixed_dep h (filePath a) ptrs pointer url)
           in Inr (JStr t, a'))
      | _ \<Rightarrow> Inl OutsideSchema)"

text \<open>The loop over \<^verbatim>\<open>Object.keys(obj)\<close>, for an object and for an array.\<close>

definition rewrite_member :: "host \<Rightarrow> pointers \<Rightarrow> string \<Rightarrow> nat \<Rightarrow> string \<times> json \<Rightarrow> asset \<Rightarrow> error + ((string \<times> json) \<times> asset)" where
  "rewrite_member h ptrs location n kv a =
     (case rewrite_string h ptrs (location @ ''/'' @ fst kv) (snd kv) a of
        Inl e \<Rightarrow> Inl e
      | Inr (v', a') \<Rightarrow> Inr ((fst kv, v'), a'))"

definition rewrite_element :: "host \<Rightarrow> pointers \<Rightarrow> string \<Rightarrow> nat \<Rightarrow> json \<Rightarrow> asset \<Rightarrow> error + (json \<times> asset)" where
  "rewrite_element h ptrs location i v a =
     rewrite_string h ptrs (location @ ''/'' @ show_nat i) v a"

definition rewrite_value :: "host \<Rightarrow> pointers \<Rightarrow> string \<Rightarrow> json \<Rightarrow> asset \<Rightarrow> error + (json \<times> asset)" where
  "rewrite_value h ptrs location obj a =
     (case obj of
        JStr url \<Rightarrow> rewrite_string h ptrs location obj a
      | JObj members \<Rightarrow>
          (case for_indexed (rewrite_member h ptrs location) 0 members a of
             Inl e \<Rightarrow> Inl e
           | Inr (members', a') \<Rightarrow> Inr (JObj members', a'))
      | JArr elements \<Rightarrow>
          (case for_indexed (rewrite_element h ptrs location) 0 elements a of
             Inl e \<Rightarrow> Inl e
           | Inr (elements', a') \<Rightarrow> Inr (JArr elements', a'))
      | _ \<Rightarrow> Inl OutsideSchema)"

text \<open>
  The walk from \<^verbatim>\<open>program\<close> down to the parent of the last key, and the rewrite of
  the value found there. No path of the table is empty.
\<close>

fun rewrite_at :: "host \<Rightarrow> pointers \<Rightarrow> string \<Rightarrow> string list \<Rightarrow> object \<Rightarrow> asset \<Rightarrow> error + (object \<times> asset)" where
  "rewrite_at h ptrs location [] parent a = Inl OutsideSchema"
| "rewrite_at h ptrs location [lastLoc] parent a =
     (case map_of parent lastLoc of
        None \<Rightarrow> Inl OutsideSchema
      | Some obj \<Rightarrow>
          (case rewrite_value h ptrs location obj a of
             Inl e \<Rightarrow> Inl e
           | Inr (obj', a') \<Rightarrow> Inr (AList.update lastLoc obj' parent, a')))"
| "rewrite_at h ptrs location (k # ks) parent a =
     (case map_of parent k of
        Some (JObj child) \<Rightarrow>
          (case rewrite_at h ptrs location ks child a of
             Inl e \<Rightarrow> Inl e
           | Inr (child', a') \<Rightarrow> Inr (AList.update k (JObj child') parent, a'))
      | _ \<Rightarrow> Inl OutsideSchema)"

definition dep_loc :: "host \<Rightarrow> pointers \<Rightarrow> string list \<Rightarrow> object \<times> asset \<Rightarrow> error + (object \<times> asset)" where
  "dep_loc h ptrs l s =
     (let location = location_of l in
      if ptrs location = None then Inr s
      else rewrite_at h ptrs location l (fst s) (snd s))"

definition collect_dep_locs :: "host \<Rightarrow> pointers \<Rightarrow> object \<Rightarrow> asset \<Rightarrow> error + (object \<times> asset)" where
  "collect_dep_locs h ptrs program a = for_each (dep_loc h ptrs) DEP_LOCS (program, a)"

subsection \<open>Background scripts and the service worker, lines 248 to 296\<close>

definition autoreload_bg_dep :: "host \<Rightarrow> dep_env option \<Rightarrow> dependency" where
  "autoreload_bg_dep h e =
     \<lparr>specifier = ''./runtime/autoreload-bg.js'', needsStableName = None, pipeline = None,
      loc = None, resolveFrom = Some (module_filename h), env = e\<rparr>"

text \<open>A property that the schema has as an object, or that is absent.\<close>

definition object_property :: "object \<Rightarrow> string \<Rightarrow> error + object option" where
  "object_property obj k =
     (case map_of obj k of
        None \<Rightarrow> Inr None
      | Some (JObj members) \<Rightarrow> Inr (Some members)
      | Some _ \<Rightarrow> Inl OutsideSchema)"

definition string_property :: "object \<Rightarrow> string \<Rightarrow> error + string option" where
  "string_property obj k =
     (case map_of obj k of
        None \<Rightarrow> Inr None
      | Some (JStr s) \<Rightarrow> Inr (Some s)
      | Some _ \<Rightarrow> Inl OutsideSchema)"

definition array_property :: "object \<Rightarrow> string \<Rightarrow> error + json list option" where
  "array_property obj k =
     (case map_of obj k of
        None \<Rightarrow> Inr None
      | Some (JArr xs) \<Rightarrow> Inr (Some xs)
      | Some _ \<Rightarrow> Inl OutsideSchema)"

text \<open>Lines 255 to 267: the background script of the auto-reload runtime is appended.\<close>

definition push_background_script :: "host \<Rightarrow> object \<Rightarrow> asset \<Rightarrow> error + (object \<times> asset)" where
  "push_background_script h program a =
     (case object_property program ''background'' of
        Inl e \<Rightarrow> Inl e
      | Inr bg \<Rightarrow>
          (let background = (case bg of None \<Rightarrow> [] | Some b \<Rightarrow> b) in
           case array_property background ''scripts'' of
             Inl e \<Rightarrow> Inl e
           | Inr sc \<Rightarrow>
               (let scripts = (case sc of None \<Rightarrow> [] | Some xs \<Rightarrow> xs);
                    (t, a') = addURLDependency h a (autoreload_bg_dep h None)
                in Inr (AList.update ''background''
                          (JObj (AList.update ''scripts'' (JArr (scripts @ [JStr t])) background))
                          program,
                        a'))))"

definition collect_background_mv2 :: "host \<Rightarrow> bool \<Rightarrow> bool \<Rightarrow> object \<Rightarrow> asset \<Rightarrow> error + (object \<times> asset)" where
  "collect_background_mv2 h hot needRuntimeBG program a =
     (if hot then
        (case string_property program ''content_security_policy'' of
           Inl e \<Rightarrow> Inl e
         | Inr policy \<Rightarrow>
             (let program1 =
                    AList.update ''content_security_policy'' (JStr (cspPatchHMR policy)) program
              in if needRuntimeBG then push_background_script h program1 a
                 else Inr (program1, a)))
      else Inr (program, a))"

definition service_worker_dep :: "bool \<Rightarrow> bool \<Rightarrow> string \<Rightarrow> dependency" where
  "service_worker_dep needRuntimeBG is_module url =
     \<lparr>specifier = url, needsStableName = Some True,
      pipeline = Some (if needRuntimeBG then ''mv3-bg-sw'' else []),
      loc = None, resolveFrom = None,
      env = Some \<lparr>env_context = ''service-worker'',
                  sourceType = Some (if is_module then ''module'' else ''script'')\<rparr>\<rparr>"

text \<open>A string that is present and not empty, that is, truthy.\<close>

definition nonempty :: "string option \<Rightarrow> string option" where
  "nonempty s = (case s of None \<Rightarrow> None | Some x \<Rightarrow> if x = [] then None else Some x)"

definition collect_background_mv3 :: "host \<Rightarrow> bool \<Rightarrow> object \<Rightarrow> asset \<Rightarrow> error + (object \<times> asset)" where
  "collect_background_mv3 h needRuntimeBG program a =
     (case object_property program ''background'' of
        Inl e \<Rightarrow> Inl e
      | Inr bg \<Rightarrow>
          (let background = (case bg of None \<Rightarrow> [] | Some b \<Rightarrow> b) in
           case string_property background ''service_worker'' of
             Inl e \<Rightarrow> Inl e
           | Inr sw \<Rightarrow>
               (case nonempty sw of
                  Some service_worker \<Rightarrow>
                    (case string_property background ''type'' of
                       Inl e \<Rightarrow> Inl e
                     | Inr ty \<Rightarrow>
                         (let (t, a') =
                                addURLDependency h a
                                  (service_worker_dep needRuntimeBG (ty = Some ''module'')
                                     service_worker)
                          in Inr (AList.update ''background''
                                    (JObj (AList.update ''service_worker'' (JStr t) background))
                                    program,
                                  a')))
                | None \<Rightarrow>
                    if needRuntimeBG then
                      (let (t, a') =
                             addURLDependency h a
                               (autoreload_bg_dep h
                                  (Some \<lparr>env_context = ''service-worker'', sourceType = None\<rparr>))
                       in Inr (AList.update ''background''
                                 (JObj (AList.update ''service_worker'' (JStr t) background))
                                 program,
                               a'))
                    else Inr (program, a))))"

subsection \<open>The whole walk, lines 43 to 297\<close>

text \<open>\<^verbatim>\<open>program.manifest_version == 2\<close>, for a version that is a number or is absent.\<close>

definition isMV2_of :: "object \<Rightarrow> error + bool" where
  "isMV2_of program =
     (case map_of program ''manifest_version'' of
        None \<Rightarrow> Inr False
      | Some (JNum n) \<Rightarrow> Inr (n = 2)
      | Some _ \<Rightarrow> Inl OutsideSchema)"

definition collect_background :: "host \<Rightarrow> bool \<Rightarrow> bool \<Rightarrow> bool \<Rightarrow> object \<Rightarrow> asset \<Rightarrow> error + (object \<times> asset)" where
  "collect_background h isMV2 hot needRuntimeBG program a =
     (if isMV2 then collect_background_mv2 h hot needRuntimeBG program a
      else collect_background_mv3 h needRuntimeBG program a)"

definition collectDependencies :: "host \<Rightarrow> asset \<Rightarrow> object \<Rightarrow> pointers \<Rightarrow> bool \<Rightarrow> error + (object \<times> asset)" where
  "collectDependencies h a program ptrs hot =
     (case isMV2_of program of
        Inl e \<Rightarrow> Inl e
      | Inr isMV2 \<Rightarrow>
     (case collect_default_locale h ptrs program a of
        Inl e \<Rightarrow> Inl e
      | Inr a1 \<Rightarrow>
     (case collect_content_scripts h ptrs hot program a1 of
        Inl e \<Rightarrow> Inl e
      | Inr (program2, a2, needRuntimeBG) \<Rightarrow>
     (case collect_dictionaries h ptrs program2 a2 of
        Inl e \<Rightarrow> Inl e
      | Inr (program3, a3) \<Rightarrow>
     (case collect_theme_icons h ptrs isMV2 program3 a3 of
        Inl e \<Rightarrow> Inl e
      | Inr (program4, a4) \<Rightarrow>
     (case collect_web_accessible_resources h ptrs isMV2 program4 a4 of
        Inl e \<Rightarrow> Inl e
      | Inr (program5, a5) \<Rightarrow>
     (case collect_dep_locs h ptrs program5 a5 of
        Inl e \<Rightarrow> Inl e
      | Inr (program6, a6) \<Rightarrow>
          collect_background h isMV2 hot needRuntimeBG program6 a6)))))))"

section \<open>The transformer, lines 321 to 364\<close>

definition newline :: string where
  "newline = [CHR 0x0A]"

text \<open>The template literal of lines 325 to 330.\<close>

definition service_worker_wrapper :: "string \<Rightarrow> string \<Rightarrow> string" where
  "service_worker_wrapper bg c =
     newline @ ''        (function() {''
     @ newline @ ''          '' @ bg
     @ newline @ ''        })();''
     @ newline @ ''        '' @ c
     @ newline @ ''      ''"

definition select_schema :: "object \<Rightarrow> schema" where
  "select_schema data =
     (if map_of data ''manifest_version'' = Some (JNum 3) then MV3Schema
      else if map_of data ''manifest_version'' = Some (JNum 2) then MV2Schema
      else VersionSchema)"

definition transform :: "host \<Rightarrow> asset \<Rightarrow> bool \<Rightarrow> error + asset" where
  "transform h a hot =
     (if asset_pipeline a = Some ''mv3-bg-sw'' then
        Inr (a\<lparr>code := service_worker_wrapper (AUTORELOAD_BG h) (code a)\<rparr>)
      else
        (case jsm_parse h (code a) of
           None \<Rightarrow> Inl CollaboratorFailure
         | Some (JObj data, pointers) \<Rightarrow>
             (case validateSchema h (select_schema data) (JObj data) (code a) (filePath a) of
                [] \<Rightarrow>
                  (case collectDependencies h a data pointers hot of
                     Inl e \<Rightarrow> Inl e
                   | Inr (data', a') \<Rightarrow> Inr (a'\<lparr>code := JSON_stringify h (JObj data')\<rparr>))
              | d # ds \<Rightarrow> Inl (SchemaViolation (d # ds)))
         | Some _ \<Rightarrow> Inl OutsideSchema))"

text \<open>
  The characters a JSON text can begin with, after its white space, and the first
  character of a text that is not white space.
\<close>

definition json_start :: "char \<Rightarrow> bool" where
  "json_start c = (c \<in> set (CHR 0x22 # ''{[-0123456789tfn''))"

definition first_visible :: "string \<Rightarrow> char option" where
  "first_visible s = (case dropWhile is_space s of [] \<Rightarrow> None | c # cs \<Rightarrow> Some c)"

section \<open>Notions of the statements\<close>

text \<open>
  The token list of a directive of a policy string, and the text that the loop of
  lines 309 to 311 builds from a parsed policy: every directive followed by \<^verbatim>\<open>;\<close>.
\<close>

definition directive :: "string \<Rightarrow> string \<Rightarrow> string list option" where
  "directive policy name = map_of (parseCSP policy) name"

definition serialize :: "csp \<Rightarrow> string" where
  "serialize c = concat (map (\<lambda>kv. fst kv @ '' '' @ join '' '' (snd kv) @ '';'') c)"

text \<open>
  What a parsed policy always is. A name or a token is not empty and has neither white
  space nor \<^verbatim>\<open>;\<close> in it; \<open>enumerated_before k k'\<close> says that a property \<open>k\<close> created after
  a property \<open>k'\<close> is still enumerated before it; in a well-formed policy the names and
  tokens are such, no name occurs twice, and the directives stand in enumeration order.
  \<open>directive_piece\<close> is the text of one directive in the patched policy, without its \<^verbatim>\<open>;\<close>.
\<close>

definition is_token :: "string \<Rightarrow> bool" where
  "is_token w = (w \<noteq> [] \<and> (\<forall>c\<in>set w. \<not> is_space c \<and> c \<noteq> CHR '';''))"

definition enumerated_before :: "string \<Rightarrow> string \<Rightarrow> bool" where
  "enumerated_before k k' = (is_array_index k \<and> (\<not> is_array_index k' \<or> int_of_digits k < int_of_digits k'))"

definition well_formed :: "csp \<Rightarrow> bool" where
  "well_formed c =
     (list_all (\<lambda>kv. is_token (fst kv) \<and> list_all is_token (snd kv)) c
      \<and> distinct (map fst c)
      \<and> sorted_wrt (\<lambda>x y. \<not> enumerated_before (fst y) (fst x)) c)"

definition directive_piece :: "string \<times> string list \<Rightarrow> string" where
  "directive_piece kv = fst kv @ '' '' @ join '' '' (snd kv)"

definition self_src :: string where
  "self_src = CHR 0x27 # ''self'' @ [CHR 0x27]"

text \<open>
  The asset \<open>a'\<close> is the asset \<open>a\<close> with more dependencies registered after the ones it
  had, each of them satisfying \<open>P\<close>.
\<close>

definition extends_by :: "(dependency \<Rightarrow> bool) \<Rightarrow> asset \<Rightarrow> asset \<Rightarrow> bool" where
  "extends_by P a a' =
     (\<exists>new. a' = a\<lparr>dependencies := dependencies a @ new\<rparr> \<and> list_all P new)"

definition not_raw :: "dependency \<Rightarrow> bool" where
  "not_raw d = (pipeline d \<noteq> Some ''raw'')"

text \<open>
  What a content script entry number \<open>i\<close> should become. \<open>urls\<close> is the list of paths
  under the key \<open>k\<close>, or \<open>None\<close> when the entry has no such key. \<open>asset_deps\<close> are the
  dependencies of these paths, \<open>reload_deps\<close> is the dependency on the auto-reload client
  when hot reload is active and the entry has a \<^verbatim>\<open>js\<close> file, and \<open>set_tokens\<close> puts
  the tokens of a list of dependencies under the key.
\<close>

definition asset_deps :: "string \<Rightarrow> pointers \<Rightarrow> nat \<Rightarrow> string \<Rightarrow> string list option \<Rightarrow> dependency list" where
  "asset_deps fp ptrs i k urls =
     (case urls of
        None \<Rightarrow> []
      | Some us \<Rightarrow>
          map (\<lambda>ju.
                \<lparr>specifier = snd ju, needsStableName = Some True, pipeline = None,
                 loc = Some (fp,
                   getJSONSourceLocation
                     (ptrs (''/content_scripts/'' @ show_nat i @ ''/'' @ k @ ''/''
                            @ show_nat (fst ju))) ValuePart),
                 resolveFrom = None, env = None\<rparr>)
            (enumerate 0 us))"

definition reload_deps :: "host \<Rightarrow> bool \<Rightarrow> string list option \<Rightarrow> dependency list" where
  "reload_deps h hot js =
     (if hot \<and> js \<noteq> None \<and> js \<noteq> Some []
      then [\<lparr>specifier = ''./runtime/autoreload.js'', needsStableName = None, pipeline = None,
             loc = None, resolveFrom = Some (module_filename h), env = None\<rparr>]
      else [])"

definition set_tokens :: "host \<Rightarrow> string \<Rightarrow> string list option \<Rightarrow> dependency list \<Rightarrow> object \<Rightarrow> object" where
  "set_tokens h k urls ds sc =
     (case urls of
        None \<Rightarrow> sc
      | Some us \<Rightarrow> AList.update k (JArr (map (\<lambda>d. JStr (token h d)) ds)) sc)"

text \<open>A content script entry that declares at least one \<^verbatim>\<open>js\<close> file.\<close>

definition declares_js :: "json \<Rightarrow> bool" where
  "declares_js v =
     (case v of
        JObj sc \<Rightarrow> (case map_of sc ''js'' of Some (JArr (x # xs)) \<Rightarrow> True | _ \<Rightarrow> False)
      | _ \<Rightarrow> False)"


text \<open>
  Two paths of keys part ways: at some position, where both have a key, the keys differ
  and all keys before are the same. And: some content script entry of the manifest
  declares a \<^verbatim>\<open>js\<close> file.
\<close>

fun diverge :: "string list \<Rightarrow> string list \<Rightarrow> bool" where
  "diverge (x # xs) (y # ys) = (x \<noteq> y \<or> diverge xs ys)"
| "diverge xs ys = False"

definition content_scripts_with_js :: "object \<Rightarrow> bool" where
  "content_scripts_with_js program =
     (case map_of program ''content_scripts'' of
        Some (JArr scs) \<Rightarrow> list_ex declares_js scs
      | _ \<Rightarrow> False)"

text \<open>
  Two relations between a document and a later one, over every path into the first.
  \<open>grows\<close>: the path still leads to a value, of the same structural type.
  \<open>same_kinds\<close>: if the path still leads to a value, that value has the same structural type.
\<close>

definition grows :: "json \<Rightarrow> json \<Rightarrow> bool" where
  "grows v v' =
     (\<forall>p w. get_path v p = Some w \<longrightarrow> (\<exists>w'. get_path v' p = Some w' \<and> kind_of w' = kind_of w))"

definition same_kinds :: "json \<Rightarrow> json \<Rightarrow> bool" where
  "same_kinds v v' =
     (\<forall>p w w'. get_path v p = Some w \<longrightarrow> get_path v' p = Some w' \<longrightarrow> kind_of w' = kind_of w)"

subsection \<open>An example host and example manifests\<close>

definition example_extname :: "string \<Rightarrow> string" where
  "example_extname p =
     (let r = takeWhile (\<lambda>c. c \<noteq> CHR ''.'') (rev p)
      in if length r = length p then [] else CHR ''.'' # rev r)"

definition example_host :: host where
  "example_host =
     \<lparr>fs_exists = (\<lambda>p. p = ''/ext/_locales'' \<or> p = ''/ext/_locales/en''),
      fs_readdir = (\<lambda>p. if p = ''/ext/_locales'' then Some [''en'', ''de''] else None),
      glob_join = (\<lambda>dir x. case x of
                     JStr p \<Rightarrow>
                       if p = ''img/*.png''
                       then Some [dir @ ''/img/a.png'', dir @ ''/img/b.png'']
                       else Some []
                   | _ \<Rightarrow> None),
      path_join = (\<lambda>d p. d @ ''/'' @ p),
      path_dirname = (\<lambda>p. ''/ext''),
      path_relative = (\<lambda>d p. drop (Suc (length d)) p),
      path_extname = example_extname,
      token = (\<lambda>d. ''dep:'' @ specifier d),
      escapeMarkdown = (\<lambda>s. s),
      jsm_parse = (\<lambda>s. None),
      validateSchema = (\<lambda>s d c f. []),
      JSON_stringify = (\<lambda>d. []),
      module_filename = ''/parcel/WebExtensionTransformer.js'',
      AUTORELOAD_BG = ''reload()''\<rparr>"

definition example_asset :: asset where
  "example_asset =
     \<lparr>filePath = ''/ext/manifest.json'', code = [], asset_pipeline = None, dependencies = []\<rparr>"

definition pointers_of :: "string list \<Rightarrow> pointers" where
  "pointers_of ps = (\<lambda>p. if p \<in> set ps then Some (Mapping (Some (0, 0)) (0, 0)) else None)"

definition mv2_manifest :: object where
  "mv2_manifest =
     [(''manifest_version'', JNum 2),
      (''name'', JStr ''example''),
      (''content_scripts'',
         JArr [JObj [(''matches'', JArr [JStr ''<all_urls>'']), (''js'', JArr [JStr ''a.js''])]])]"

definition mv2_pointers :: pointers where
  "mv2_pointers =
     pointers_of
       [[], ''/manifest_version'', ''/name'', ''/content_scripts'', ''/content_scripts/0'',
        ''/content_scripts/0/matches'', ''/content_scripts/0/matches/0'',
        ''/content_scripts/0/js'', ''/content_scripts/0/js/0'']"

definition host_without_locales :: host where
  "host_without_locales = example_host\<lparr>fs_exists := (\<lambda>p. False)\<rparr>"

definition host_without_en :: host where
  "host_without_en = example_host\<lparr>fs_exists := (\<lambda>p. p = ''/ext/_locales'')\<rparr>"

definition locale_manifest :: object where
  "locale_manifest = [(''manifest_version'', JNum 3), (''default_locale'', JStr ''en'')]"

definition locale_pointers :: pointers where
  "locale_pointers = pointers_of [[], ''/manifest_version'', ''/default_locale'']"




definition icons_manifest :: object where
  "icons_manifest =
     [(''manifest_version'', JNum 2), (''icons'', JObj [(''16'', JStr ''icon16.png'')])]"

definition bare_pointers :: pointers where
  "bare_pointers = pointers_of [[], ''/manifest_version'']"

definition scripts_manifest :: object where
  "scripts_manifest =
     [(''manifest_version'', JNum 3),
      (''content_scripts'',
         JArr [JObj [(''css'', JArr [JStr ''a.css'']), (''js'', JArr [JStr ''a.js'', JStr ''b.js''])],
               JObj [(''css'', JArr [JStr ''only.css''])]])]"

definition scripts_pointers :: pointers where
  "scripts_pointers =
     pointers_of
       [[], ''/manifest_version'', ''/content_scripts'', ''/content_scripts/0'',
        ''/content_scripts/0/css'', ''/content_scripts/0/css/0'', ''/content_scripts/0/js'',
        ''/content_scripts/0/js/0'', ''/content_scripts/0/js/1'', ''/content_scripts/1'',
        ''/content_scripts/1/css'', ''/content_scripts/1/css/0'']"

definition worker_manifest :: object where
  "worker_manifest =
     [(''manifest_version'', JNum 3),
      (''content_scripts'', JArr [JObj [(''js'', JArr [JStr ''a.js''])]]),
      (''background'', JObj [(''service_worker'', JStr ''bg.js''), (''type'', JStr ''module'')])]"

definition worker_pointers :: pointers where
  "worker_pointers =
     pointers_of
       [[], ''/manifest_version'', ''/content_scripts'', ''/content_scripts/0'',
        ''/content_scripts/0/js'', ''/content_scripts/0/js/0'', ''/background'',
        ''/background/service_worker'', ''/background/type'']"




section \<open>Lemmas\<close>

subsection \<open>Properties at the top of the document that a step leaves alone\<close>

lemma map_of_update_other: "k \<noteq> k' \<Longrightarrow> map_of (AList.update k' v al) k = map_of al k"
  by (simp add: update_conv')

lemma content_scripts_frame:
  assumes "collect_content_scripts h ptrs hot program a = Inr (program', a', flag)"
      and "k \<noteq> ''content_scripts''"
  shows "map_of program' k = map_of program k"
  using assms
  by (auto simp: collect_content_scripts_def map_of_update_other
      split: option.splits json.splits sum.splits prod.splits)

lemma dictionaries_frame:
  assumes "collect_dictionaries h ptrs program a = Inr (program', a')"
      and "k \<noteq> ''dictionaries''"
  shows "map_of program' k = map_of program k"
  using assms
  by (auto simp: collect_dictionaries_def map_of_update_other
      split: option.splits json.splits sum.splits prod.splits)

lemma theme_icons_frame:
  assumes "collect_theme_icons h ptrs isMV2 program a = Inr (program', a')"
      and "k \<noteq> browserActionName isMV2"
  shows "map_of program' k = map_of program k"
  using assms
  by (auto simp: collect_theme_icons_def map_of_update_other Let_def
      split: option.splits json.splits sum.splits prod.splits)

lemma web_accessible_resources_frame:
  assumes "collect_web_accessible_resources h ptrs isMV2 program a = Inr (program', a')"
      and "k \<noteq> ''web_accessible_resources''"
  shows "map_of program' k = map_of program k"
  using assms
  by (auto simp: collect_web_accessible_resources_def map_of_update_other
      split: option.splits json.splits sum.splits prod.splits)

lemma rewrite_at_frame:
  assumes "rewrite_at h ptrs location l parent a = Inr (parent', a')"
      and "k \<noteq> hd l"
  shows "map_of parent' k = map_of parent k"
  using assms
  by (cases "(h, ptrs, location, l, parent, a)" rule: rewrite_at.cases)
     (auto simp: map_of_update_other split: option.splits json.splits sum.splits prod.splits)

lemma for_each_dep_loc_frame:
  assumes "for_each (dep_loc h ptrs) ls s = Inr s'"
      and "\<forall>l \<in> set ls. k \<noteq> hd l"
  shows "map_of (fst s') k = map_of (fst s) k"
  using assms
proof (induction ls arbitrary: s)
  case Nil
  then show ?case by simp
next
  case (Cons l ls)
  from Cons.prems(1) obtain s1 where s1: "dep_loc h ptrs l s = Inr s1"
    and rest: "for_each (dep_loc h ptrs) ls s1 = Inr s'"
    by (auto split: sum.splits)
  have "map_of (fst s1) k = map_of (fst s) k"
  proof (cases "ptrs (location_of l) = None")
    case True
    with s1 show ?thesis by (simp add: dep_loc_def)
  next
    case False
    with s1 have "rewrite_at h ptrs (location_of l) l (fst s) (snd s) = Inr (fst s1, snd s1)"
      by (simp add: dep_loc_def)
    then show ?thesis
      using Cons.prems(2)
        rewrite_at_frame [of h ptrs "location_of l" l "fst s" "snd s" "fst s1" "snd s1" k]
      by simp
  qed
  moreover have "map_of (fst s') k = map_of (fst s1) k"
    using Cons.IH [OF rest] Cons.prems(2) by simp
  ultimately show ?case by simp
qed

lemma dep_locs_frame:
  assumes "collect_dep_locs h ptrs program a = Inr (program', a')"
      and "k \<notin> set (map hd DEP_LOCS)"
  shows "map_of program' k = map_of program k"
  using for_each_dep_loc_frame [of h ptrs DEP_LOCS "(program, a)" "(program', a')" k] assms
  by (auto simp: collect_dep_locs_def)

lemma push_background_script_frame:
  assumes "push_background_script h program a = Inr (program', a')"
      and "k \<noteq> ''background''"
  shows "map_of program' k = map_of program k"
  using assms
  by (auto simp: push_background_script_def object_property_def array_property_def
        map_of_update_other Let_def addURLDependency_def
      split: option.splits json.splits sum.splits prod.splits)

text \<open>A walk that returns went through every step.\<close>

lemma collectDependencies_InrE:
  assumes "collectDependencies h a program ptrs hot = Inr (program', a')"
  obtains isMV2 a1 program2 a2 needRuntimeBG program3 a3 program4 a4 program5 a5 program6 a6
  where "isMV2_of program = Inr isMV2"
    and "collect_default_locale h ptrs program a = Inr a1"
    and "collect_content_scripts h ptrs hot program a1 = Inr (program2, a2, needRuntimeBG)"
    and "collect_dictionaries h ptrs program2 a2 = Inr (program3, a3)"
    and "collect_theme_icons h ptrs isMV2 program3 a3 = Inr (program4, a4)"
    and "collect_web_accessible_resources h ptrs isMV2 program4 a4 = Inr (program5, a5)"
    and "collect_dep_locs h ptrs program5 a5 = Inr (program6, a6)"
    and "collect_background h isMV2 hot needRuntimeBG program6 a6 = Inr (program', a')"
  using assms unfolding collectDependencies_def
  by (auto split: sum.splits prod.splits)

subsection \<open>The policy patch\<close>

lemma foldl_append_directive: "foldl append_directive acc c = acc @ serialize c"
  by (induction c arbitrary: acc) (simp_all add: serialize_def append_directive_def)

lemma update_absent: "map_of c k = None \<Longrightarrow> AList.update k v c = c @ [(k, v)]"
  by (induction c) (auto split: if_splits)

lemma update_appended:
  "map_of c k = None \<Longrightarrow> AList.update k v' (c @ [(k, v)]) = c @ [(k, v')]"
  by (induction c) (auto split: if_splits)

lemma serialize_append: "serialize (c @ d) = serialize c @ serialize d"
  by (simp add: serialize_def)

lemma parseCSP_empty: "parseCSP [] = []"
  by (simp add: parseCSP_def parse_directive_def trim_def)

lemma unsafe_eval_not_default: "unsafe_eval \<noteq> default_script_src"
  by (simp add: unsafe_eval_def default_script_src_def)

lemma default_directive_text:
  "serialize [(''script-src'', [default_script_src, unsafe_eval])] =
     ''script-src 'self' 'unsafe-eval' blob: filesystem: 'unsafe-eval';''"
  by (simp add: serialize_def default_script_src_def unsafe_eval_def)

lemma default_policy_text:
  "default_policy =
     ''script-src 'self' 'unsafe-eval' blob: filesystem:;object-src 'self' blob: filesystem:;''"
  by (simp add: default_policy_def)

lemma patch_present:
  assumes "directive p ''script-src'' = Some srcs" and "unsafe_eval \<in> set srcs"
  shows "cspPatchHMR (Some p) = serialize (parseCSP p)"
proof -
  from assms(1) have "p \<noteq> []" by (auto simp: directive_def parseCSP_empty)
  with assms show ?thesis
    by (simp add: cspPatchHMR_def directive_def foldl_append_directive)
qed

lemma patch_lacking:
  assumes "directive p ''script-src'' = Some srcs" and "unsafe_eval \<notin> set srcs"
  shows "cspPatchHMR (Some p) =
           serialize (AList.update ''script-src'' (srcs @ [unsafe_eval]) (parseCSP p))"
proof -
  from assms(1) have "p \<noteq> []" by (auto simp: directive_def parseCSP_empty)
  with assms show ?thesis
    by (simp add: cspPatchHMR_def directive_def foldl_append_directive)
qed

lemma wrapper_first_visible:
  "first_visible (service_worker_wrapper bg c) = Some (CHR ''('')"
  by (simp add: first_visible_def service_worker_wrapper_def newline_def is_space_def)


subsection \<open>Loops\<close>


lemma for_indexed_append:
  "for_indexed f n (xs @ ys) s =
     (case for_indexed f n xs s of
        Inl e \<Rightarrow> Inl e
      | Inr (us, s1) \<Rightarrow>
          (case for_indexed f (n + length xs) ys s1 of
             Inl e \<Rightarrow> Inl e
           | Inr (vs, s2) \<Rightarrow> Inr (us @ vs, s2)))"
  by (induction xs arbitrary: n s) (auto split: sum.splits prod.splits)

lemma for_indexed_length:
  "for_indexed f n xs s = Inr (ys, s') \<Longrightarrow> length ys = length xs"
  by (induction xs arbitrary: n s ys) (auto split: sum.splits prod.splits)

text \<open>The round for one element, with the rounds before it and after it.\<close>

lemma for_indexed_nth:
  assumes run: "for_indexed f n xs s = Inr (ys, s')" and i: "i < length xs"
  obtains s1 s2 where
    "for_indexed f n (take i xs) s = Inr (take i ys, s1)"
    "f (n + i) (xs ! i) s1 = Inr (ys ! i, s2)"
    "for_indexed f (Suc (n + i)) (drop (Suc i) xs) s2 = Inr (drop (Suc i) ys, s')"
proof -
  have len: "length ys = length xs" using run by (rule for_indexed_length)
  have split: "xs = take i xs @ (xs ! i) # drop (Suc i) xs"
    using i by (simp add: id_take_nth_drop)
  from run have r: "for_indexed f n (take i xs @ (xs ! i) # drop (Suc i) xs) s = Inr (ys, s')"
    using split by simp
  then obtain us s1 y s2 vs where
    a: "for_indexed f n (take i xs) s = Inr (us, s1)" and
    b: "f (n + i) (xs ! i) s1 = Inr (y, s2)" and
    c: "for_indexed f (Suc (n + i)) (drop (Suc i) xs) s2 = Inr (vs, s')" and
    ys: "ys = us @ y # vs"
    using i by (auto simp: for_indexed_append min_def split: sum.splits prod.splits)
  from for_indexed_length [OF a] i have lu: "length us = i" by simp
  then have "take i ys = us" "ys ! i = y" "drop (Suc i) ys = vs"
    by (simp_all add: ys nth_append)
  with a b c show ?thesis using that by simp
qed


subsection \<open>Every step only adds dependencies\<close>


lemma extends_by_refl: "extends_by P a a"
  by (auto simp: extends_by_def intro: exI [of _ "[]"])

lemma extends_by_trans:
  assumes "extends_by P a b" and "extends_by P b c"
  shows "extends_by P a c"
proof -
  from assms obtain n1 n2 where
    b: "b = a\<lparr>dependencies := dependencies a @ n1\<rparr>" and p1: "list_all P n1" and
    c: "c = b\<lparr>dependencies := dependencies b @ n2\<rparr>" and p2: "list_all P n2"
    by (auto simp: extends_by_def)
  have "c = a\<lparr>dependencies := dependencies a @ (n1 @ n2)\<rparr>"
    by (simp add: b c)
  moreover have "list_all P (n1 @ n2)" using p1 p2 by simp
  ultimately show ?thesis unfolding extends_by_def by blast
qed


lemma extends_by_intro:
  "list_all P new \<Longrightarrow> extends_by P a (a\<lparr>dependencies := dependencies a @ new\<rparr>)"
  unfolding extends_by_def by blast

lemma extends_by_add:
  "P d \<Longrightarrow> addURLDependency h a d = (t, a') \<Longrightarrow> extends_by P a a'"
  by (auto simp: extends_by_def addURLDependency_def intro: exI [of _ "[d]"])

lemma for_indexed_invariant:
  assumes step: "\<And>i x s y s'. f i x s = Inr (y, s') \<Longrightarrow> Q s s'"
      and refl: "\<And>s. Q s s"
      and trans: "\<And>s t u. Q s t \<Longrightarrow> Q t u \<Longrightarrow> Q s u"
      and run: "for_indexed f n xs s = Inr (ys, s')"
  shows "Q s s'"
  using run
proof (induction xs arbitrary: n s ys)
  case Nil
  then show ?case by (simp add: refl)
next
  case (Cons x xs)
  from Cons.prems obtain y s1 ys1 where
    a: "f n x s = Inr (y, s1)" and b: "for_indexed f (Suc n) xs s1 = Inr (ys1, s')"
    by (auto split: sum.splits prod.splits)
  from step [OF a] Cons.IH [OF b] show ?case by (rule trans)
qed

lemma not_raw_stable [simp]: "not_raw (stable_dep url l p) = (p \<noteq> Some ''raw'')"
  by (simp add: not_raw_def stable_dep_def)

lemma rewrite_asset_extends:
  "rewrite_asset h ptrs i k j v a = Inr (v', a') \<Longrightarrow> extends_by not_raw a a'"
  by (auto simp: rewrite_asset_def content_script_dep_def split: json.splits prod.splits
      intro!: extends_by_add [where P = not_raw])

lemma rewrite_assets_extends:
  assumes "rewrite_assets h ptrs i k sc a = Inr (sc', a')"
  shows "extends_by not_raw a a'"
proof (cases "map_of sc k")
  case None
  with assms show ?thesis by (simp add: rewrite_assets_def extends_by_refl)
next
  case (Some v)
  with assms obtain assets assets' where "v = JArr assets"
    and run: "for_indexed (rewrite_asset h ptrs i k) 0 assets a = Inr (assets', a')"
    by (auto simp: rewrite_assets_def split: json.splits sum.splits prod.splits)
  from for_indexed_invariant [where Q = "extends_by not_raw", OF _ _ _ run]
  show ?thesis
    using rewrite_asset_extends extends_by_refl extends_by_trans by blast
qed

lemma content_script_extends:
  assumes "content_script h ptrs hot i v s = Inr (v', s')"
  shows "extends_by not_raw (fst s) (fst s')"
proof -
  from assms obtain sc sc1 a1 sc2 a2 where
    r1: "rewrite_assets h ptrs i ''css'' sc (fst s) = Inr (sc1, a1)" and
    r2: "rewrite_assets h ptrs i ''js'' sc1 a1 = Inr (sc2, a2)" and
    last: "fst s' = a2 \<or> (\<exists>t. addURLDependency h a2 (autoreload_dep h) = (t, fst s'))"
    by (auto simp: content_script_def split: json.splits sum.splits prod.splits option.splits
        if_splits)
  have "not_raw (autoreload_dep h)" by (simp add: not_raw_def autoreload_dep_def)
  with last have "extends_by not_raw a2 (fst s')"
    by (auto intro: extends_by_refl extends_by_add)
  with rewrite_assets_extends [OF r1] rewrite_assets_extends [OF r2]
  show ?thesis by (blast intro: extends_by_trans)
qed

lemma content_scripts_extends:
  assumes "collect_content_scripts h ptrs hot program a = Inr (program', a', flag)"
  shows "extends_by not_raw a a'"
proof (cases "map_of program ''content_scripts''")
  case None
  with assms show ?thesis by (simp add: collect_content_scripts_def extends_by_refl)
next
  case (Some v)
  with assms obtain scs scs' where
    run: "for_indexed (content_script h ptrs hot) 0 scs (a, False) = Inr (scs', (a', flag))"
    by (auto simp: collect_content_scripts_def split: json.splits sum.splits prod.splits)
  from for_indexed_invariant
    [where Q = "\<lambda>s s'. extends_by not_raw (fst s) (fst s')", OF _ _ _ run]
  show ?thesis
    using content_script_extends extends_by_refl extends_by_trans by fastforce
qed

lemma for_each_invariant:
  assumes step: "\<And>x s s'. f x s = Inr s' \<Longrightarrow> Q s s'"
      and refl: "\<And>s. Q s s"
      and trans: "\<And>s t u. Q s t \<Longrightarrow> Q t u \<Longrightarrow> Q s u"
      and run: "for_each f xs s = Inr s'"
  shows "Q s s'"
  using run
proof (induction xs arbitrary: s)
  case Nil
  then show ?case by (simp add: refl)
next
  case (Cons x xs)
  from Cons.prems obtain s1 where
    a: "f x s = Inr s1" and b: "for_each f xs s1 = Inr s'"
    by (auto split: sum.splits)
  from step [OF a] Cons.IH [OF b] show ?case by (rule trans)
qed

lemma dictionary_entry_extends:
  assumes "dictionary_entry h ptrs n kv a = Inr (kv', a')"
  shows "extends_by not_raw a a'"
  using assms
  by (auto simp: dictionary_entry_def Let_def addURLDependency_def
      split: json.splits if_splits intro!: extends_by_intro)

lemma dictionaries_extends:
  assumes "collect_dictionaries h ptrs program a = Inr (program', a')"
  shows "extends_by not_raw a a'"
proof (cases "map_of program ''dictionaries''")
  case None
  with assms show ?thesis by (simp add: collect_dictionaries_def extends_by_refl)
next
  case (Some v)
  with assms obtain ds ds' where
    run: "for_indexed (dictionary_entry h ptrs) 0 ds a = Inr (ds', a')"
    by (auto simp: collect_dictionaries_def split: json.splits sum.splits prod.splits)
  from for_indexed_invariant [where Q = "extends_by not_raw", OF _ _ _ run]
  show ?thesis
    using dictionary_entry_extends extends_by_refl extends_by_trans by blast
qed

lemma theme_icon_path_extends:
  "theme_icon_path h ptrs name i k icon a = Inr (icon', a') \<Longrightarrow> extends_by not_raw a a'"
  by (auto simp: theme_icon_path_def Let_def split: option.splits json.splits prod.splits
      intro!: extends_by_add [where P = not_raw])

lemma theme_icon_extends:
  assumes "theme_icon h ptrs name i v a = Inr (v', a')"
  shows "extends_by not_raw a a'"
proof -
  from assms obtain icon icon1 a1 icon2 where
    "theme_icon_path h ptrs name i ''light'' icon a = Inr (icon1, a1)"
    "theme_icon_path h ptrs name i ''dark'' icon1 a1 = Inr (icon2, a')"
    by (auto simp: theme_icon_def split: json.splits sum.splits prod.splits)
  then show ?thesis by (blast intro: theme_icon_path_extends extends_by_trans)
qed

lemma theme_icons_extends:
  assumes "collect_theme_icons h ptrs isMV2 program a = Inr (program', a')"
  shows "extends_by not_raw a a'"
proof -
  from assms have "a' = a \<or> (\<exists>icons icons'.
      for_indexed (theme_icon h ptrs (browserActionName isMV2)) 0 icons a = Inr (icons', a'))"
    by (auto simp: collect_theme_icons_def Let_def
        split: option.splits json.splits sum.splits prod.splits)
  then show ?thesis
  proof
    assume "a' = a"
    then show ?thesis by (simp add: extends_by_refl)
  next
    assume "\<exists>icons icons'.
      for_indexed (theme_icon h ptrs (browserActionName isMV2)) 0 icons a = Inr (icons', a')"
    then obtain icons icons' where
      run: "for_indexed (theme_icon h ptrs (browserActionName isMV2)) 0 icons a = Inr (icons', a')"
      by blast
    from for_indexed_invariant [where Q = "extends_by not_raw", OF _ _ _ run]
    show ?thesis
      using theme_icon_extends extends_by_refl extends_by_trans by blast
  qed
qed

lemma add_dependencies_result:
  "add_dependencies h ds a =
     (map (token h) ds, a\<lparr>dependencies := dependencies a @ ds\<rparr>)"
  by (induction ds arbitrary: a) (simp_all add: addURLDependency_def)

lemma glob_files_extends:
  assumes "glob_files h ptrs isMV2 i pattern a = Inr (ts, a')"
  shows "extends_by not_raw a a'"
proof -
  from assms obtain fps where
    "a' = a\<lparr>dependencies := dependencies a @ map (resource_dep h (filePath a) ptrs isMV2 i) fps\<rparr>"
    by (auto simp: glob_files_def add_dependencies_result split: option.splits)
  moreover have "list_all not_raw (map (resource_dep h (filePath a) ptrs isMV2 i) fps)"
    by (simp add: list_all_iff resource_dep_def)
  ultimately show ?thesis unfolding extends_by_def by blast
qed

lemma web_accessible_resource_extends:
  assumes "web_accessible_resource h ptrs isMV2 i files a = Inr (added, a')"
  shows "extends_by not_raw a a'"
proof -
  from assms obtain pattern ts where "glob_files h ptrs isMV2 i pattern a = Inr (ts, a')"
    by (auto simp: web_accessible_resource_def
        split: if_splits json.splits option.splits sum.splits prod.splits)
  then show ?thesis by (rule glob_files_extends)
qed

lemma web_accessible_resources_extends:
  assumes "collect_web_accessible_resources h ptrs isMV2 program a = Inr (program', a')"
  shows "extends_by not_raw a a'"
proof (cases "map_of program ''web_accessible_resources''")
  case None
  with assms show ?thesis by (simp add: collect_web_accessible_resources_def extends_by_refl)
next
  case (Some v)
  with assms obtain es added where
    run: "for_indexed (web_accessible_resource h ptrs isMV2) 0 es a = Inr (added, a')"
    by (auto simp: collect_web_accessible_resources_def
        split: json.splits sum.splits prod.splits)
  from for_indexed_invariant [where Q = "extends_by not_raw", OF _ _ _ run]
  show ?thesis
    using web_accessible_resource_extends extends_by_refl extends_by_trans by blast
qed

lemma rewrite_string_extends:
  "rewrite_string h ptrs pointer v a = Inr (v', a') \<Longrightarrow> extends_by not_raw a a'"
  by (auto simp: rewrite_string_def fixed_dep_def split: json.splits prod.splits
      intro!: extends_by_add [where P = not_raw])

lemma rewrite_value_extends:
  assumes "rewrite_value h ptrs location obj a = Inr (obj', a')"
  shows "extends_by not_raw a a'"
proof (cases obj)
  case (JStr url)
  with assms show ?thesis by (auto simp: rewrite_value_def intro: rewrite_string_extends)
next
  case (JObj members)
  with assms obtain members' where
    run: "for_indexed (rewrite_member h ptrs location) 0 members a = Inr (members', a')"
    by (auto simp: rewrite_value_def split: sum.splits prod.splits)
  have "\<And>n kv s y s'. rewrite_member h ptrs location n kv s = Inr (y, s')
      \<Longrightarrow> extends_by not_raw s s'"
    by (auto simp: rewrite_member_def split: sum.splits prod.splits
        intro: rewrite_string_extends)
  with for_indexed_invariant [where Q = "extends_by not_raw", OF _ _ _ run]
  show ?thesis using extends_by_refl extends_by_trans by blast
next
  case (JArr elements)
  with assms obtain elements' where
    run: "for_indexed (rewrite_element h ptrs location) 0 elements a = Inr (elements', a')"
    by (auto simp: rewrite_value_def split: sum.splits prod.splits)
  have "\<And>n v s y s'. rewrite_element h ptrs location n v s = Inr (y, s')
      \<Longrightarrow> extends_by not_raw s s'"
    by (auto simp: rewrite_element_def intro: rewrite_string_extends)
  with for_indexed_invariant [where Q = "extends_by not_raw", OF _ _ _ run]
  show ?thesis using extends_by_refl extends_by_trans by blast
qed (use assms in \<open>simp_all add: rewrite_value_def\<close>)

lemma rewrite_at_extends:
  "rewrite_at h ptrs location l parent a = Inr (parent', a') \<Longrightarrow> extends_by not_raw a a'"
proof (induction h ptrs location l parent a arbitrary: parent' rule: rewrite_at.induct)
  case (1 h ptrs location parent a)
  then show ?case by simp
next
  case (2 h ptrs location lastLoc parent a)
  then show ?case
    by (auto split: option.splits sum.splits prod.splits intro: rewrite_value_extends)
next
  case (3 h ptrs location k v va parent a)
  then show ?case
    by (auto split: option.splits json.splits sum.splits prod.splits)
qed

lemma dep_locs_extends:
  assumes "collect_dep_locs h ptrs program a = Inr (program', a')"
  shows "extends_by not_raw a a'"
proof -
  have step: "extends_by not_raw (snd s) (snd s')" if "dep_loc h ptrs l s = Inr s'" for l s s'
  proof (cases "ptrs (location_of l) = None")
    case True
    with that show ?thesis by (simp add: dep_loc_def extends_by_refl)
  next
    case False
    with that have "rewrite_at h ptrs (location_of l) l (fst s) (snd s) = Inr (fst s', snd s')"
      by (simp add: dep_loc_def)
    then show ?thesis by (rule rewrite_at_extends)
  qed
  from assms have run: "for_each (dep_loc h ptrs) DEP_LOCS (program, a) = Inr (program', a')"
    by (simp add: collect_dep_locs_def)
  from for_each_invariant
    [where Q = "\<lambda>s s'. extends_by not_raw (snd s) (snd s')", OF _ _ _ run]
  show ?thesis using step extends_by_refl extends_by_trans by fastforce
qed

lemma background_extends:
  assumes "collect_background h isMV2 hot flag program a = Inr (program', a')"
  shows "extends_by not_raw a a'"
proof -
  have bg: "not_raw (autoreload_bg_dep h e)" for e
    by (simp add: not_raw_def autoreload_bg_dep_def)
  have sw: "not_raw (service_worker_dep flag m url)" for m url
    by (simp add: not_raw_def service_worker_dep_def)
  from assms have "a' = a \<or> (\<exists>d t. not_raw d \<and> addURLDependency h a d = (t, a'))"
    using bg sw
    by (auto simp: collect_background_def collect_background_mv2_def collect_background_mv3_def
        push_background_script_def Let_def
        split: if_splits sum.splits option.splits prod.splits)
  then show ?thesis by (auto intro: extends_by_refl extends_by_add)
qed

lemma collectDependencies_extends:
  assumes "collectDependencies h a program ptrs hot = Inr (program', a')"
  obtains a1 where "collect_default_locale h ptrs program a = Inr a1"
    and "extends_by not_raw a1 a'"
proof -
  from assms obtain isMV2 a1 program2 a2 needRuntimeBG program3 a3 program4 a4 program5 a5
      program6 a6
    where s1: "collect_default_locale h ptrs program a = Inr a1"
      and s2: "collect_content_scripts h ptrs hot program a1 = Inr (program2, a2, needRuntimeBG)"
      and s3: "collect_dictionaries h ptrs program2 a2 = Inr (program3, a3)"
      and s4: "collect_theme_icons h ptrs isMV2 program3 a3 = Inr (program4, a4)"
      and s5: "collect_web_accessible_resources h ptrs isMV2 program4 a4 = Inr (program5, a5)"
      and s6: "collect_dep_locs h ptrs program5 a5 = Inr (program6, a6)"
      and s7: "collect_background h isMV2 hot needRuntimeBG program6 a6 = Inr (program', a')"
    unfolding collectDependencies_def by (auto split: sum.splits prod.splits)
  have "extends_by not_raw a1 a'"
    using content_scripts_extends [OF s2] dictionaries_extends [OF s3]
      theme_icons_extends [OF s4] web_accessible_resources_extends [OF s5]
      dep_locs_extends [OF s6] background_extends [OF s7]
    by (blast intro: extends_by_trans)
  with s1 show ?thesis by (rule that)
qed


subsection \<open>Dictionaries\<close>






lemma aff_file_dic: "aff_file (b @ ''.dic'') = b @ ''.aff''"
  by (simp add: aff_file_def)


subsection \<open>Content scripts\<close>
lemma rewrite_asset_loop:
  "for_indexed (rewrite_asset h ptrs i k) n (map JStr urls) a =
     Inr (map (\<lambda>ju. JStr (token h (content_script_dep (filePath a) ptrs i k (fst ju) (snd ju))))
            (enumerate n urls),
          a\<lparr>dependencies := dependencies a
             @ map (\<lambda>ju. content_script_dep (filePath a) ptrs i k (fst ju) (snd ju))
                 (enumerate n urls)\<rparr>)"
  by (induction urls arbitrary: n a) (simp_all add: rewrite_asset_def addURLDependency_def)

lemma asset_deps_alt:
  "asset_deps fp ptrs i k urls =
     (case urls of
        None \<Rightarrow> []
      | Some us \<Rightarrow> map (\<lambda>ju. content_script_dep fp ptrs i k (fst ju) (snd ju)) (enumerate 0 us))"
  by (simp add: asset_deps_def content_script_dep_def stable_dep_def split: option.splits)

lemma reload_deps_alt:
  "reload_deps h hot js =
     (if hot \<and> js \<noteq> None \<and> js \<noteq> Some [] then [autoreload_dep h] else [])"
  by (simp add: reload_deps_def autoreload_dep_def)

lemma rewrite_assets_closed:
  assumes "map_of sc k = map_option (\<lambda>us. JArr (map JStr us)) urls"
  shows "rewrite_assets h ptrs i k sc a =
     Inr (set_tokens h k urls (asset_deps (filePath a) ptrs i k urls) sc,
          a\<lparr>dependencies := dependencies a @ asset_deps (filePath a) ptrs i k urls\<rparr>)"
proof (cases urls)
  case None
  with assms show ?thesis
    by (simp add: rewrite_assets_def set_tokens_def asset_deps_alt)
next
  case (Some us)
  with assms show ?thesis
    by (simp add: rewrite_assets_def set_tokens_def asset_deps_alt rewrite_asset_loop
        comp_def)
qed

lemma content_script_closed:
  assumes css: "map_of sc ''css'' = map_option (\<lambda>us. JArr (map JStr us)) css"
      and js: "map_of sc ''js'' = map_option (\<lambda>us. JArr (map JStr us)) js"
  shows "content_script h ptrs hot i (JObj sc) (a, flag) =
     Inr (JObj (set_tokens h ''js'' js
                  (asset_deps (filePath a) ptrs i ''js'' js @ reload_deps h hot js)
                  (set_tokens h ''css'' css (asset_deps (filePath a) ptrs i ''css'' css) sc)),
          a\<lparr>dependencies := dependencies a
             @ asset_deps (filePath a) ptrs i ''css'' css
             @ asset_deps (filePath a) ptrs i ''js'' js
             @ reload_deps h hot js\<rparr>,
          flag \<or> reload_deps h hot js \<noteq> [])"
proof -
  define sc1 where "sc1 = set_tokens h ''css'' css (asset_deps (filePath a) ptrs i ''css'' css) sc"
  define a1 where
    "a1 = a\<lparr>dependencies := dependencies a @ asset_deps (filePath a) ptrs i ''css'' css\<rparr>"
  have r1: "rewrite_assets h ptrs i ''css'' sc a = Inr (sc1, a1)"
    by (simp add: rewrite_assets_closed [OF css] sc1_def a1_def)
  have js1: "map_of sc1 ''js'' = map_option (\<lambda>us. JArr (map JStr us)) js"
    using js by (simp add: sc1_def set_tokens_def map_of_update_other split: option.splits)
  define sc2 where "sc2 = set_tokens h ''js'' js (asset_deps (filePath a) ptrs i ''js'' js) sc1"
  define a2 where
    "a2 = a1\<lparr>dependencies := dependencies a1 @ asset_deps (filePath a) ptrs i ''js'' js\<rparr>"
  have r2: "rewrite_assets h ptrs i ''js'' sc1 a1 = Inr (sc2, a2)"
    by (simp add: rewrite_assets_closed [OF js1] sc2_def a2_def a1_def)
  have unfold: "content_script h ptrs hot i (JObj sc) (a, flag) =
      (case map_of sc2 ''js'' of
         Some (JArr js') \<Rightarrow>
           if hot \<and> js' \<noteq> [] then
             (let (t, a3) = addURLDependency h a2 (autoreload_dep h)
              in Inr (JObj (AList.update ''js'' (JArr (js' @ [JStr t])) sc2), a3, True))
           else Inr (JObj sc2, a2, flag)
       | _ \<Rightarrow> Inr (JObj sc2, a2, flag))"
    by (simp add: content_script_def r1 r2 cong: option.case_cong json.case_cong if_cong)
  have a2': "a2 = a\<lparr>dependencies := dependencies a
      @ asset_deps (filePath a) ptrs i ''css'' css @ asset_deps (filePath a) ptrs i ''js'' js\<rparr>"
    by (simp add: a2_def a1_def)
  show ?thesis
  proof (cases js)
    case None
    then have "map_of sc2 ''js'' = None"
      using js1 by (simp add: sc2_def set_tokens_def)
    moreover have "sc2 = set_tokens h ''js'' js
        (asset_deps (filePath a) ptrs i ''js'' js @ reload_deps h hot js) sc1"
      using None by (simp add: sc2_def set_tokens_def)
    ultimately show ?thesis
      using None by (simp add: unfold a2' reload_deps_alt sc1_def)
  next
    case (Some us)
    then have m: "map_of sc2 ''js'' =
        Some (JArr (map (\<lambda>d. JStr (token h d)) (asset_deps (filePath a) ptrs i ''js'' js)))"
      by (simp add: sc2_def set_tokens_def update_conv')
    have ne: "asset_deps (filePath a) ptrs i ''js'' js = [] \<longleftrightarrow> us = []"
      by (cases us) (simp_all add: Some asset_deps_alt)
    show ?thesis
    proof (cases "hot \<and> us \<noteq> []")
      case True
      then have rd: "reload_deps h hot js = [autoreload_dep h]"
        by (simp add: reload_deps_alt Some)
      have eq: "AList.update ''js''
              (JArr (map (\<lambda>d. JStr (token h d)) (asset_deps (filePath a) ptrs i ''js'' js)
                     @ [JStr (token h (autoreload_dep h))])) sc2
            = set_tokens h ''js'' js
                (asset_deps (filePath a) ptrs i ''js'' js @ [autoreload_dep h]) sc1"
        by (simp add: sc2_def set_tokens_def Some)
      show ?thesis
        unfolding unfold m rd sc1_def [symmetric]
        using True ne by (simp add: addURLDependency_def a2' eq)
    next
      case False
      then have rd: "reload_deps h hot js = []"
        by (auto simp: reload_deps_alt Some)
      show ?thesis
        unfolding unfold m rd sc1_def [symmetric]
        using False ne by (auto simp: a2' sc2_def)
    qed
  qed
qed



lemma rewrite_asset_loop_shape:
  "for_indexed (rewrite_asset h ptrs i k) n xs a = Inr r \<Longrightarrow> \<exists>us. xs = map JStr us"
proof (induction xs arbitrary: n a r)
  case Nil
  then show ?case by simp
next
  case (Cons x xs)
  from Cons.prems obtain y a1 r1 where
    step: "rewrite_asset h ptrs i k n x a = Inr (y, a1)" and
    rest: "for_indexed (rewrite_asset h ptrs i k) (Suc n) xs a1 = Inr r1"
    by (auto split: sum.splits prod.splits)
  from step obtain u where x: "x = JStr u"
    by (auto simp: rewrite_asset_def split: json.splits)
  from Cons.IH [OF rest] obtain us where "xs = map JStr us" by blast
  with x have "x # xs = map JStr (u # us)" by simp
  then show ?case by (rule exI)
qed

lemma rewrite_assets_shape:
  assumes "rewrite_assets h ptrs i k sc a = Inr r"
  shows "\<exists>urls. map_of sc k = map_option (\<lambda>us. JArr (map JStr us)) urls"
proof (cases "map_of sc k")
  case None
  then have "map_of sc k = map_option (\<lambda>us. JArr (map JStr us)) None" by simp
  then show ?thesis by (rule exI)
next
  case (Some v)
  with assms obtain xs r' where v: "v = JArr xs"
    and "for_indexed (rewrite_asset h ptrs i k) 0 xs a = Inr r'"
    by (auto simp: rewrite_assets_def split: json.splits sum.splits prod.splits)
  from rewrite_asset_loop_shape [OF this(2)] obtain us where "xs = map JStr us" by blast
  with Some v have "map_of sc k = map_option (\<lambda>us. JArr (map JStr us)) (Some us)" by simp
  then show ?thesis by (rule exI)
qed

lemma rewrite_assets_frame:
  assumes "rewrite_assets h ptrs i k sc a = Inr (sc', a')" and "k' \<noteq> k"
  shows "map_of sc' k' = map_of sc k'"
  using assms
  by (auto simp: rewrite_assets_def map_of_update_other
      split: option.splits json.splits sum.splits prod.splits)

lemma content_script_shape:
  assumes "content_script h ptrs hot i v s = Inr r"
  obtains sc css js where "v = JObj sc"
    and "map_of sc ''css'' = map_option (\<lambda>us. JArr (map JStr us)) css"
    and "map_of sc ''js'' = map_option (\<lambda>us. JArr (map JStr us)) js"
proof -
  from assms obtain sc sc1 a1 r2 where v: "v = JObj sc"
    and r1: "rewrite_assets h ptrs i ''css'' sc (fst s) = Inr (sc1, a1)"
    and r2: "rewrite_assets h ptrs i ''js'' sc1 a1 = Inr r2"
    by (auto simp: content_script_def split: json.splits sum.splits prod.splits)
  from rewrite_assets_shape [OF r1] obtain css where
    css: "map_of sc ''css'' = map_option (\<lambda>us. JArr (map JStr us)) css" by blast
  from rewrite_assets_shape [OF r2] obtain js where
    "map_of sc1 ''js'' = map_option (\<lambda>us. JArr (map JStr us)) js" by blast
  with rewrite_assets_frame [OF r1, of "''js''"]
  have "map_of sc ''js'' = map_option (\<lambda>us. JArr (map JStr us)) js" by simp
  with v css show ?thesis by (rule that)
qed

lemma reload_deps_declares:
  assumes "map_of sc ''js'' = map_option (\<lambda>us. JArr (map JStr us)) js"
  shows "reload_deps h hot js \<noteq> [] \<longleftrightarrow> hot \<and> declares_js (JObj sc)"
proof (cases js)
  case None
  with assms show ?thesis by (simp add: reload_deps_alt declares_js_def)
next
  case (Some us)
  with assms show ?thesis
    by (cases us) (simp_all add: reload_deps_alt declares_js_def)
qed

lemma content_script_flag:
  assumes "content_script h ptrs hot i v s = Inr (v', a', flag')"
  shows "flag' = (snd s \<or> (hot \<and> declares_js v))"
proof -
  from assms obtain sc css js where v: "v = JObj sc"
    and css: "map_of sc ''css'' = map_option (\<lambda>us. JArr (map JStr us)) css"
    and js: "map_of sc ''js'' = map_option (\<lambda>us. JArr (map JStr us)) js"
    by (rule content_script_shape)
  from content_script_closed [OF css js, of h ptrs hot i "fst s" "snd s"] assms
  have "flag' = (snd s \<or> reload_deps h hot js \<noteq> [])" by (simp add: v)
  with reload_deps_declares [OF js, of h hot] show ?thesis by (simp add: v)
qed

lemma content_scripts_loop_flag:
  "for_indexed (content_script h ptrs hot) n scs s = Inr (scs', a', flag')
     \<Longrightarrow> flag' = (snd s \<or> (hot \<and> list_ex declares_js scs))"
proof (induction scs arbitrary: n s scs')
  case Nil
  then show ?case by simp
next
  case (Cons v scs)
  from Cons.prems obtain v' a1 f1 rest where
    a: "content_script h ptrs hot n v s = Inr (v', a1, f1)" and
    b: "for_indexed (content_script h ptrs hot) (Suc n) scs (a1, f1) = Inr (rest, a', flag')"
    by (auto split: sum.splits prod.splits)
  from content_script_flag [OF a] Cons.IH [OF b] show ?case by auto
qed


subsection \<open>Localization\<close>

lemma foldl_add_locales:
  "foldl (\<lambda>a' locale. snd (addURLDependency h a' (f locale))) a entries
     = a\<lparr>dependencies := dependencies a @ map f entries\<rparr>"
  by (induction entries arbitrary: a) (simp_all add: addURLDependency_def)

lemma collectDependencies_locale_failure:
  assumes "isMV2_of program = Inr v"
      and "collect_default_locale h ptrs program a = Inl e"
  shows "collectDependencies h a program ptrs hot = Inl e"
  using assms by (simp add: collectDependencies_def)


lemma content_scripts_loop_extends:
  assumes "for_indexed (content_script h ptrs hot) n xs s = Inr (ys, s')"
  shows "extends_by not_raw (fst s) (fst s')"
  using for_indexed_invariant
    [where Q = "\<lambda>s s'. extends_by not_raw (fst s) (fst s')", OF _ _ _ assms]
    content_script_extends extends_by_refl extends_by_trans
  by fastforce


subsection \<open>Values at paths that a step does not touch\<close>

lemma get_path_update_other:
  "x \<noteq> k \<Longrightarrow> get_path (JObj (AList.update k v obj)) (Key x # r) = get_path (JObj obj) (Key x # r)"
  by (simp add: map_of_update_other)

lemma get_path_update_same:
  "get_path (JObj (AList.update k v obj)) (Key k # r) = get_path v r"
  by (simp add: update_conv')

lemma get_path_top:
  "map_of obj' x = map_of obj x \<Longrightarrow>
     get_path (JObj obj') (Key x # r) = get_path (JObj obj) (Key x # r)"
  by simp

lemma rewrite_at_other_path:
  assumes "rewrite_at h ptrs location l parent a = Inr (parent', a')" and "diverge p l"
  shows "get_path (JObj parent') (map Key p) = get_path (JObj parent) (map Key p)"
  using assms
proof (induction h ptrs location l parent a arbitrary: p parent' rule: rewrite_at.induct)
  case (1 h ptrs location parent a)
  then show ?case by simp
next
  case (2 h ptrs location lastLoc parent a)
  from "2.prems"(2) obtain x xs where p: "p = x # xs" and x: "x \<noteq> lastLoc"
    by (cases p) auto
  from "2.prems"(1) obtain obj' where "parent' = AList.update lastLoc obj' parent"
    by (auto split: option.splits sum.splits prod.splits)
  with x show ?case by (simp add: p map_of_update_other)
next
  case (3 h ptrs location k v va parent a)
  from "3.prems"(2) obtain x xs where p: "p = x # xs"
    and d: "x \<noteq> k \<or> diverge xs (v # va)"
    by (cases p) auto
  from "3.prems"(1) obtain child child' where
    c: "map_of parent k = Some (JObj child)" and
    r: "rewrite_at h ptrs location (v # va) child a = Inr (child', a')" and
    p': "parent' = AList.update k (JObj child') parent"
    by (auto split: option.splits json.splits sum.splits prod.splits)
  show ?case
  proof (cases "x = k")
    case False
    then show ?thesis by (simp add: p p' map_of_update_other)
  next
    case True
    with d have "diverge xs (v # va)" by simp
    from "3.IH" [OF c refl r this] show ?thesis
      by (simp add: p p' True c update_conv')
  qed
qed

lemma dep_locs_other_path:
  assumes "for_each (dep_loc h ptrs) ls s = Inr s'"
      and "\<forall>l \<in> set ls. ptrs (location_of l) \<noteq> None \<longrightarrow> diverge p l"
  shows "get_path (JObj (fst s')) (map Key p) = get_path (JObj (fst s)) (map Key p)"
  using assms
proof (induction ls arbitrary: s)
  case Nil
  then show ?case by simp
next
  case (Cons l ls)
  from Cons.prems(1) obtain s1 where s1: "dep_loc h ptrs l s = Inr s1"
    and rest: "for_each (dep_loc h ptrs) ls s1 = Inr s'"
    by (auto split: sum.splits)
  have "get_path (JObj (fst s1)) (map Key p) = get_path (JObj (fst s)) (map Key p)"
  proof (cases "ptrs (location_of l) = None")
    case True
    with s1 show ?thesis by (simp add: dep_loc_def)
  next
    case False
    with s1 have "rewrite_at h ptrs (location_of l) l (fst s) (snd s) = Inr (fst s1, snd s1)"
      by (simp add: dep_loc_def)
    moreover from False Cons.prems(2) have "diverge p l" by simp
    ultimately show ?thesis by (rule rewrite_at_other_path)
  qed
  moreover have "get_path (JObj (fst s')) (map Key p) = get_path (JObj (fst s1)) (map Key p)"
    using Cons.IH [OF rest] Cons.prems(2) by simp
  ultimately show ?case by simp
qed

lemma DEP_LOCS_diverge:
  "\<forall>p \<in> set DEP_LOCS. \<forall>l \<in> set DEP_LOCS. p = l \<or> diverge p l"
  by (simp add: DEP_LOCS_def)

lemma dep_locs_skip:
  "for_each (dep_loc h ptrs) ls s =
     for_each (dep_loc h ptrs) (filter (\<lambda>l. ptrs (location_of l) \<noteq> None) ls) s"
proof (induction ls arbitrary: s)
  case Nil
  then show ?case by simp
next
  case (Cons l ls)
  show ?case
  proof (cases "ptrs (location_of l) = None")
    case True
    then have "dep_loc h ptrs l s = Inr s" by (simp add: dep_loc_def)
    with True Cons.IH show ?thesis by simp
  next
    case False
    with Cons.IH show ?thesis by (simp split: sum.splits)
  qed
qed

lemma diverge_single: "diverge p [k] \<longleftrightarrow> p \<noteq> [] \<and> hd p \<noteq> k"
  by (cases p) auto

lemma update1_other_path:
  assumes "diverge p [k]"
  shows "get_path (JObj (AList.update k v obj)) (map Key p) = get_path (JObj obj) (map Key p)"
  using assms by (cases p) (auto simp: map_of_update_other)

lemma update2_other_path:
  assumes "map_of obj k1 = Some (JObj child) \<or> (map_of obj k1 = None \<and> child = [])"
      and "diverge p [k1, k2]"
  shows "get_path (JObj (AList.update k1 (JObj (AList.update k2 v child)) obj)) (map Key p)
           = get_path (JObj obj) (map Key p)"
proof -
  from assms(2) obtain x xs where p: "p = x # xs" and d: "x \<noteq> k1 \<or> diverge xs [k2]"
    by (cases p) auto
  show ?thesis
  proof (cases "x = k1")
    case False
    then show ?thesis by (simp add: p map_of_update_other)
  next
    case True
    with d obtain y ys where xs: "xs = y # ys" and y: "y \<noteq> k2"
      by (cases xs) auto
    from assms(1) show ?thesis
      by (auto simp: p True xs y update_conv' map_of_update_other)
  qed
qed

lemma theme_icons_other_path:
  assumes "collect_theme_icons h ptrs isMV2 program a = Inr (program', a')"
      and "diverge p [browserActionName isMV2, ''theme_icons'']"
  shows "get_path (JObj program') (map Key p) = get_path (JObj program) (map Key p)"
proof -
  from assms(1) have "program' = program \<or> (\<exists>action icons.
      map_of program (browserActionName isMV2) = Some (JObj action)
      \<and> program' = AList.update (browserActionName isMV2)
           (JObj (AList.update ''theme_icons'' icons action)) program)"
    by (auto simp: collect_theme_icons_def Let_def
        split: option.splits json.splits sum.splits prod.splits)
  then show ?thesis
    using update2_other_path [OF _ assms(2)] by auto
qed

lemma push_background_script_other_path:
  assumes "push_background_script h program a = Inr (program', a')"
      and "diverge p [''background'', ''scripts'']"
  shows "get_path (JObj program') (map Key p) = get_path (JObj program) (map Key p)"
proof -
  from assms(1) obtain child v where
    "map_of program ''background'' = Some (JObj child)
       \<or> (map_of program ''background'' = None \<and> child = [])"
    and "program' = AList.update ''background''
           (JObj (AList.update ''scripts'' v child)) program"
    by (auto simp: push_background_script_def object_property_def array_property_def Let_def
        addURLDependency_def split: option.splits json.splits sum.splits prod.splits)
  then show ?thesis
    using update2_other_path [OF _ assms(2)] by auto
qed

lemma background_mv3_other_path:
  assumes "collect_background_mv3 h flag program a = Inr (program', a')"
      and "diverge p [''background'', ''service_worker'']"
  shows "get_path (JObj program') (map Key p) = get_path (JObj program) (map Key p)"
proof -
  from assms(1) have "program' = program \<or> (\<exists>child v.
      (map_of program ''background'' = Some (JObj child)
         \<or> (map_of program ''background'' = None \<and> child = []))
      \<and> program' = AList.update ''background''
           (JObj (AList.update ''service_worker'' v child)) program)"
    by (auto simp: collect_background_mv3_def object_property_def string_property_def Let_def
        addURLDependency_def nonempty_def
        split: option.splits json.splits sum.splits prod.splits if_splits)
  then show ?thesis
    using update2_other_path [OF _ assms(2)] by auto
qed

lemma background_other_path:
  assumes run: "collect_background h isMV2 hot flag program a = Inr (program', a')"
      and csp: "diverge p [''content_security_policy'']"
      and sw: "diverge p [''background'', ''service_worker'']"
      and sc: "diverge p [''background'', ''scripts''] \<or> \<not> (isMV2 \<and> hot \<and> flag)"
  shows "get_path (JObj program') (map Key p) = get_path (JObj program) (map Key p)"
proof (cases isMV2)
  case False
  with run sw show ?thesis
    by (auto simp: collect_background_def intro: background_mv3_other_path)
next
  case True
  show ?thesis
  proof (cases hot)
    case False
    with True run show ?thesis
      by (simp add: collect_background_def collect_background_mv2_def)
  next
    case hot: True
    from True hot run obtain policy where
      r: "(if flag
           then push_background_script h
                  (AList.update ''content_security_policy'' (JStr (cspPatchHMR policy)) program) a
           else Inr (AList.update ''content_security_policy'' (JStr (cspPatchHMR policy)) program, a))
          = Inr (program', a')"
      by (auto simp: collect_background_def collect_background_mv2_def Let_def
          split: sum.splits)
    show ?thesis
    proof (cases flag)
      case False
      with r csp show ?thesis by (auto simp: update1_other_path)
    next
      case flag: True
      with sc True hot have "diverge p [''background'', ''scripts'']" by simp
      from push_background_script_other_path [OF _ this] r flag
      show ?thesis using csp by (simp add: update1_other_path)
    qed
  qed
qed

lemma content_scripts_flag:
  assumes "collect_content_scripts h ptrs hot program a = Inr (program', a', flag)"
  shows "flag = (hot \<and> content_scripts_with_js program)"
proof (cases "map_of program ''content_scripts''")
  case None
  with assms show ?thesis
    by (simp add: collect_content_scripts_def content_scripts_with_js_def)
next
  case (Some v)
  with assms obtain scs scs' where v: "v = JArr scs"
    and "for_indexed (content_script h ptrs hot) 0 scs (a, False) = Inr (scs', a', flag)"
    by (auto simp: collect_content_scripts_def split: json.splits sum.splits prod.splits)
  from content_scripts_loop_flag [OF this(2)] Some v show ?thesis
    by (simp add: content_scripts_with_js_def)
qed

lemma DEP_LOCS_apart:
  "\<forall>l \<in> set DEP_LOCS.
     diverge l [''content_scripts''] \<and> diverge l [''dictionaries'']
     \<and> diverge l [''web_accessible_resources''] \<and> diverge l [''content_security_policy'']
     \<and> diverge l [''browser_action'', ''theme_icons'']
     \<and> diverge l [''action'', ''theme_icons'']
     \<and> diverge l [''background'', ''service_worker'']
     \<and> (l = [''background'', ''scripts''] \<or> diverge l [''background'', ''scripts''])"
  by (simp add: DEP_LOCS_def)


subsection \<open>The service worker\<close>


lemma service_worker_declared:
  assumes bg: "map_of program ''background'' = Some (JObj background)"
      and sw: "map_of background ''service_worker'' = Some (JStr sw)" "sw \<noteq> []"
      and run: "collect_background_mv3 h flag program a = Inr (program', a')"
  shows "program' = AList.update ''background''
           (JObj (AList.update ''service_worker''
              (JStr (token h (service_worker_dep flag
                       (map_of background ''type'' = Some (JStr ''module'')) sw)))
              background)) program
       \<and> a' = a\<lparr>dependencies := dependencies a
              @ [service_worker_dep flag (map_of background ''type'' = Some (JStr ''module'')) sw]\<rparr>"
proof -
  have 1: "object_property program ''background'' = Inr (Some background)"
    using bg by (simp add: object_property_def)
  have 2: "string_property background ''service_worker'' = Inr (Some sw)"
    using sw by (simp add: string_property_def)
  have 3: "nonempty (Some sw) = Some sw" using sw by (simp add: nonempty_def)
  from run obtain ty where ty: "string_property background ''type'' = Inr ty"
    by (auto simp: collect_background_mv3_def 1 2 3 split: sum.splits)
  then have m: "(ty = Some ''module'') = (map_of background ''type'' = Some (JStr ''module''))"
    by (auto simp: string_property_def split: option.splits json.splits)
  from run show ?thesis
    by (simp add: collect_background_mv3_def 1 2 3 ty m addURLDependency_def)
qed

lemma service_worker_synthesized:
  assumes bg: "map_of program ''background'' = Some (JObj background)
                 \<or> (map_of program ''background'' = None \<and> background = [])"
      and sw: "map_of background ''service_worker'' = None
                 \<or> map_of background ''service_worker'' = Some (JStr [])"
  shows "collect_background_mv3 h True program a =
     Inr (AList.update ''background''
            (JObj (AList.update ''service_worker''
               (JStr (token h (autoreload_bg_dep h
                  (Some \<lparr>env_context = ''service-worker'', sourceType = None\<rparr>))))
               background)) program,
          a\<lparr>dependencies := dependencies a
             @ [autoreload_bg_dep h (Some \<lparr>env_context = ''service-worker'', sourceType = None\<rparr>)]\<rparr>)"
  using bg sw
  by (auto simp: collect_background_mv3_def object_property_def string_property_def
      nonempty_def addURLDependency_def)

lemma rewrite_value_kind:
  "rewrite_value h ptrs location obj a = Inr (obj', a') \<Longrightarrow> kind_of obj' = kind_of obj"
  by (auto simp: rewrite_value_def rewrite_string_def
      split: json.splits sum.splits prod.splits)

lemma rewrite_at_keys:
  assumes "rewrite_at h ptrs location l parent a = Inr (parent', a')"
  shows "map_option kind_of (map_of parent' k) = map_option kind_of (map_of parent k)"
proof (cases l)
  case Nil
  with assms show ?thesis by simp
next
  case (Cons k' ks)
  show ?thesis
  proof (cases ks)
    case Nil
    with assms Cons obtain obj obj' a1 where o: "map_of parent k' = Some obj"
      and r: "rewrite_value h ptrs location obj a = Inr (obj', a1)"
      and p: "parent' = AList.update k' obj' parent"
      by (auto split: option.splits sum.splits prod.splits)
    from rewrite_value_kind [OF r] o show ?thesis
      by (cases "k = k'") (simp_all add: p update_conv')
  next
    case (Cons k2 ks2)
    with assms \<open>l = k' # ks\<close> obtain child child' where o: "map_of parent k' = Some (JObj child)"
      and p: "parent' = AList.update k' (JObj child') parent"
      by (auto split: option.splits json.splits sum.splits prod.splits)
    then show ?thesis
      by (cases "k = k'") (simp_all add: update_conv')
  qed
qed

lemma dep_locs_keys:
  assumes "collect_dep_locs h ptrs program a = Inr (program', a')"
  shows "map_option kind_of (map_of program' k) = map_option kind_of (map_of program k)"
proof -
  have step: "map_option kind_of (map_of (fst s') k) = map_option kind_of (map_of (fst s) k)"
    if "dep_loc h ptrs l s = Inr s'" for l s s'
  proof (cases "ptrs (location_of l) = None")
    case True
    with that show ?thesis by (simp add: dep_loc_def)
  next
    case False
    with that have "rewrite_at h ptrs (location_of l) l (fst s) (snd s) = Inr (fst s', snd s')"
      by (simp add: dep_loc_def)
    then show ?thesis by (rule rewrite_at_keys)
  qed
  from assms have run: "for_each (dep_loc h ptrs) DEP_LOCS (program, a) = Inr (program', a')"
    by (simp add: collect_dep_locs_def)
  from for_each_invariant
    [where Q = "\<lambda>s s'. map_option kind_of (map_of (fst s') k) = map_option kind_of (map_of (fst s) k)",
     OF _ _ _ run]
  show ?thesis using step by fastforce
qed

lemma DEP_LOCS_background:
  "\<forall>l \<in> set DEP_LOCS.
     diverge [''background'', ''service_worker''] l \<and> diverge [''background'', ''type''] l"
  by (simp add: DEP_LOCS_def)

text \<open>The \<^verbatim>\<open>background\<close> object that the last step of a version 3 walk finds.\<close>

lemma background_before_last_step:
  assumes s2: "collect_content_scripts h ptrs hot program a1 = Inr (program2, a2, flag)"
      and s3: "collect_dictionaries h ptrs program2 a2 = Inr (program3, a3)"
      and s4: "collect_theme_icons h ptrs False program3 a3 = Inr (program4, a4)"
      and s5: "collect_web_accessible_resources h ptrs False program4 a4 = Inr (program5, a5)"
      and s6: "collect_dep_locs h ptrs program5 a5 = Inr (program6, a6)"
  shows "(map_of program ''background'' = None \<longrightarrow> map_of program6 ''background'' = None)
       \<and> (\<forall>background. map_of program ''background'' = Some (JObj background) \<longrightarrow>
            (\<exists>background6. map_of program6 ''background'' = Some (JObj background6)
               \<and> map_of background6 ''service_worker'' = map_of background ''service_worker''
               \<and> map_of background6 ''type'' = map_of background ''type''))"
proof -
  have e5: "map_of program5 ''background'' = map_of program ''background''"
    using content_scripts_frame [OF s2, of "''background''"]
      dictionaries_frame [OF s3, of "''background''"]
      theme_icons_frame [OF s4, of "''background''"]
      web_accessible_resources_frame [OF s5, of "''background''"]
    by (simp add: browserActionName_def)
  note kinds = dep_locs_keys [OF s6, of "''background''"]
  have path: "get_path (JObj program6) (map Key [''background'', k])
                = get_path (JObj program5) (map Key [''background'', k])"
    if "k = ''service_worker'' \<or> k = ''type''" for k
    using dep_locs_other_path [of h ptrs DEP_LOCS "(program5, a5)" "(program6, a6)"
        "[''background'', k]"] s6 DEP_LOCS_background that
    by (auto simp: collect_dep_locs_def)
  show ?thesis
  proof (intro conjI allI impI)
    assume "map_of program ''background'' = None"
    with kinds e5 show "map_of program6 ''background'' = None" by simp
  next
    fix background
    assume b: "map_of program ''background'' = Some (JObj background)"
    with kinds e5 obtain v6 where v6: "map_of program6 ''background'' = Some v6"
      and "kind_of v6 = KObject"
      by auto
    then obtain background6 where b6: "v6 = JObj background6" by (cases v6) simp_all
    from path [of "''service_worker''"] path [of "''type''"]
    have "map_of background6 ''service_worker'' = map_of background ''service_worker''"
      "map_of background6 ''type'' = map_of background ''type''"
      by (simp_all add: v6 b6 e5 b split: option.splits)
    with v6 b6 show "\<exists>background6. map_of program6 ''background'' = Some (JObj background6)
        \<and> map_of background6 ''service_worker'' = map_of background ''service_worker''
        \<and> map_of background6 ''type'' = map_of background ''type''"
      by simp
  qed
qed


subsection \<open>Structural types along the walk\<close>

lemma grows_refl: "grows v v"
  by (simp add: grows_def)

lemma grows_trans: "grows u v \<Longrightarrow> grows v w \<Longrightarrow> grows u w"
  unfolding grows_def by (metis)

lemma grows_same_kinds: "grows v v' \<Longrightarrow> same_kinds v v'"
  unfolding grows_def same_kinds_def by fastforce

lemma get_path_string: "get_path (JStr s) p = Some w \<Longrightarrow> p = [] \<and> w = JStr s"
  by (cases p) auto

lemma grows_string: "grows (JStr s) (JStr t)"
  unfolding grows_def by (auto dest: get_path_string)

lemma grows_update_present:
  assumes "map_of obj k = Some v" and "grows v v'"
  shows "grows (JObj obj) (JObj (AList.update k v' obj))"
  unfolding grows_def
proof (intro allI impI)
  fix p w
  assume g: "get_path (JObj obj) p = Some w"
  show "\<exists>w'. get_path (JObj (AList.update k v' obj)) p = Some w' \<and> kind_of w' = kind_of w"
  proof (cases p)
    case Nil
    with g show ?thesis by auto
  next
    case (Cons s r)
    show ?thesis
    proof (cases s)
      case (Index i)
      with g Cons show ?thesis by simp
    next
      case (Key x)
      show ?thesis
      proof (cases "x = k")
        case True
        with g Cons Key assms(1) have "get_path v r = Some w" by simp
        with assms(2) obtain w' where "get_path v' r = Some w'" "kind_of w' = kind_of w"
          unfolding grows_def by blast
        then show ?thesis by (simp add: Cons Key True update_conv')
      next
        case False
        with g show ?thesis by (simp add: Cons Key map_of_update_other)
      qed
    qed
  qed
qed

lemma grows_update_absent:
  assumes "map_of obj k = None"
  shows "grows (JObj obj) (JObj (AList.update k v' obj))"
  unfolding grows_def
proof (intro allI impI)
  fix p w
  assume g: "get_path (JObj obj) p = Some w"
  show "\<exists>w'. get_path (JObj (AList.update k v' obj)) p = Some w' \<and> kind_of w' = kind_of w"
  proof (cases p)
    case Nil
    with g show ?thesis by auto
  next
    case (Cons s r)
    show ?thesis
    proof (cases s)
      case (Index i)
      with g Cons show ?thesis by simp
    next
      case (Key x)
      with g Cons assms have "x \<noteq> k" by auto
      with g show ?thesis by (simp add: Cons Key map_of_update_other)
    qed
  qed
qed

lemma grows_array:
  assumes "list_all2 grows xs ys"
  shows "grows (JArr xs) (JArr (ys @ zs))"
  unfolding grows_def
proof (intro allI impI)
  fix p w
  assume g: "get_path (JArr xs) p = Some w"
  from assms have len: "length xs = length ys" by (rule list_all2_lengthD)
  show "\<exists>w'. get_path (JArr (ys @ zs)) p = Some w' \<and> kind_of w' = kind_of w"
  proof (cases p)
    case Nil
    with g show ?thesis by auto
  next
    case (Cons s r)
    show ?thesis
    proof (cases s)
      case (Key x)
      with g Cons show ?thesis by simp
    next
      case (Index i)
      with g Cons have i: "i < length xs" and "get_path (xs ! i) r = Some w"
        by (auto split: if_splits)
      moreover from assms i have "grows (xs ! i) (ys ! i)" by (simp add: list_all2_nthD)
      ultimately obtain w' where "get_path (ys ! i) r = Some w'" "kind_of w' = kind_of w"
        unfolding grows_def by blast
      with i len show ?thesis by (simp add: Cons Index nth_append)
    qed
  qed
qed

lemma map_of_members:
  assumes "list_all2 (\<lambda>kv kv'. fst kv' = fst kv \<and> R (snd kv) (snd kv')) obj obj'"
      and "map_of obj k = Some v"
  shows "\<exists>v'. map_of obj' k = Some v' \<and> R v v'"
  using assms by (induction rule: list_all2_induct) (auto split: if_splits)

lemma grows_members:
  assumes "list_all2 (\<lambda>kv kv'. fst kv' = fst kv \<and> grows (snd kv) (snd kv')) obj obj'"
  shows "grows (JObj obj) (JObj obj')"
  unfolding grows_def
proof (intro allI impI)
  fix p w
  assume g: "get_path (JObj obj) p = Some w"
  show "\<exists>w'. get_path (JObj obj') p = Some w' \<and> kind_of w' = kind_of w"
  proof (cases p)
    case Nil
    with g show ?thesis by auto
  next
    case (Cons s r)
    show ?thesis
    proof (cases s)
      case (Index i)
      with g Cons show ?thesis by simp
    next
      case (Key x)
      with g Cons obtain v where v: "map_of obj x = Some v" and "get_path v r = Some w"
        by (auto split: option.splits)
      moreover from map_of_members [OF assms v] obtain v' where
        "map_of obj' x = Some v'" "grows v v'" by blast
      ultimately show ?thesis unfolding grows_def by (auto simp: Cons Key)
    qed
  qed
qed

lemma for_indexed_rel:
  assumes step: "\<And>i x s y s'. f i x s = Inr (y, s') \<Longrightarrow> R x y"
      and run: "for_indexed f n xs s = Inr (ys, s')"
  shows "list_all2 R xs ys"
  using run
proof (induction xs arbitrary: n s ys)
  case Nil
  then show ?case by simp
next
  case (Cons x xs)
  from Cons.prems obtain y s1 ys1 where
    a: "f n x s = Inr (y, s1)" and b: "for_indexed f (Suc n) xs s1 = Inr (ys1, s')"
    and ys: "ys = y # ys1"
    by (auto split: sum.splits prod.splits)
  from step [OF a] Cons.IH [OF b] show ?case by (simp add: ys)
qed

lemma rewrite_asset_grows:
  "rewrite_asset h ptrs i k j v a = Inr (v', a') \<Longrightarrow> grows v v'"
  by (auto simp: rewrite_asset_def addURLDependency_def grows_string split: json.splits)

lemma rewrite_assets_grows:
  assumes "rewrite_assets h ptrs i k sc a = Inr (sc', a')"
  shows "grows (JObj sc) (JObj sc')"
proof (cases "map_of sc k")
  case None
  with assms show ?thesis by (simp add: rewrite_assets_def grows_refl)
next
  case (Some v)
  with assms obtain xs ys where v: "v = JArr xs"
    and run: "for_indexed (rewrite_asset h ptrs i k) 0 xs a = Inr (ys, a')"
    and sc': "sc' = AList.update k (JArr ys) sc"
    by (auto simp: rewrite_assets_def split: json.splits sum.splits prod.splits)
  have "list_all2 grows xs ys"
    using for_indexed_rel [where R = grows, OF _ run] rewrite_asset_grows by blast
  then have "grows (JArr xs) (JArr (ys @ []))" by (rule grows_array)
  with Some v show ?thesis by (simp add: sc' grows_update_present)
qed

lemma content_script_grows:
  assumes "content_script h ptrs hot i v s = Inr (v', s')"
  shows "grows v v'"
proof -
  from assms obtain sc where v: "v = JObj sc"
    by (auto simp: content_script_def split: json.splits)
  from assms v obtain sc1 a1 where
    r1: "rewrite_assets h ptrs i ''css'' sc (fst s) = Inr (sc1, a1)"
    by (auto simp: content_script_def split: sum.splits prod.splits)
  from assms v r1 obtain sc2 a2 where
    r2: "rewrite_assets h ptrs i ''js'' sc1 a1 = Inr (sc2, a2)"
    by (auto simp: content_script_def split: sum.splits prod.splits)
  from assms v r1 r2
  have last: "v' = JObj sc2 \<or> (\<exists>js t. map_of sc2 ''js'' = Some (JArr js)
        \<and> v' = JObj (AList.update ''js'' (JArr (js @ [JStr t])) sc2))"
    by (auto simp: content_script_def addURLDependency_def
        split: option.splits json.splits if_splits)
  have g12: "grows (JObj sc) (JObj sc2)"
    using rewrite_assets_grows [OF r1] rewrite_assets_grows [OF r2] by (rule grows_trans)
  from last have "grows (JObj sc2) v'"
  proof
    assume "v' = JObj sc2"
    then show ?thesis by (simp add: grows_refl)
  next
    assume "\<exists>js t. map_of sc2 ''js'' = Some (JArr js)
        \<and> v' = JObj (AList.update ''js'' (JArr (js @ [JStr t])) sc2)"
    then obtain js t where m: "map_of sc2 ''js'' = Some (JArr js)"
      and v': "v' = JObj (AList.update ''js'' (JArr (js @ [JStr t])) sc2)"
      by blast
    have "list_all2 grows js js" by (simp add: list_all2_same grows_refl)
    then have "grows (JArr js) (JArr (js @ [JStr t]))" by (rule grows_array)
    with m show ?thesis by (simp add: v' grows_update_present)
  qed
  with g12 show ?thesis by (auto simp: v intro: grows_trans)
qed

lemma content_scripts_grows:
  assumes "collect_content_scripts h ptrs hot program a = Inr (program', a', flag)"
  shows "grows (JObj program) (JObj program')"
proof (cases "map_of program ''content_scripts''")
  case None
  with assms show ?thesis by (simp add: collect_content_scripts_def grows_refl)
next
  case (Some v)
  with assms obtain xs ys where v: "v = JArr xs"
    and run: "for_indexed (content_script h ptrs hot) 0 xs (a, False) = Inr (ys, a', flag)"
    and p': "program' = AList.update ''content_scripts'' (JArr ys) program"
    by (auto simp: collect_content_scripts_def split: json.splits sum.splits prod.splits)
  have "list_all2 grows xs ys"
    using for_indexed_rel [where R = grows, OF _ run] content_script_grows by blast
  then have "grows (JArr xs) (JArr (ys @ []))" by (rule grows_array)
  with Some v show ?thesis by (simp add: p' grows_update_present)
qed

lemma dictionary_entry_grows:
  "dictionary_entry h ptrs n kv a = Inr (kv', a')
     \<Longrightarrow> fst kv' = fst kv \<and> grows (snd kv) (snd kv')"
  by (auto simp: dictionary_entry_def Let_def addURLDependency_def grows_string
      split: json.splits if_splits)

lemma dictionaries_grows:
  assumes "collect_dictionaries h ptrs program a = Inr (program', a')"
  shows "grows (JObj program) (JObj program')"
proof (cases "map_of program ''dictionaries''")
  case None
  with assms show ?thesis by (simp add: collect_dictionaries_def grows_refl)
next
  case (Some v)
  with assms obtain xs ys where v: "v = JObj xs"
    and run: "for_indexed (dictionary_entry h ptrs) 0 xs a = Inr (ys, a')"
    and p': "program' = AList.update ''dictionaries'' (JObj ys) program"
    by (auto simp: collect_dictionaries_def split: json.splits sum.splits prod.splits)
  have "list_all2 (\<lambda>kv kv'. fst kv' = fst kv \<and> grows (snd kv) (snd kv')) xs ys"
    using for_indexed_rel
      [where R = "\<lambda>kv kv'. fst kv' = fst kv \<and> grows (snd kv) (snd kv')", OF _ run]
      dictionary_entry_grows by blast
  then have "grows (JObj xs) (JObj ys)" by (rule grows_members)
  with Some v show ?thesis by (simp add: p' grows_update_present)
qed

lemma theme_icon_path_grows:
  "theme_icon_path h ptrs name i k icon a = Inr (icon', a') \<Longrightarrow> grows (JObj icon) (JObj icon')"
  by (auto simp: theme_icon_path_def Let_def addURLDependency_def grows_string
      split: option.splits json.splits intro!: grows_update_present)

lemma theme_icon_grows:
  assumes "theme_icon h ptrs name i v a = Inr (v', a')"
  shows "grows v v'"
proof -
  from assms obtain icon icon1 a1 icon2 where "v = JObj icon" "v' = JObj icon2"
    "theme_icon_path h ptrs name i ''light'' icon a = Inr (icon1, a1)"
    "theme_icon_path h ptrs name i ''dark'' icon1 a1 = Inr (icon2, a')"
    by (auto simp: theme_icon_def split: json.splits sum.splits prod.splits)
  then show ?thesis by (auto intro: grows_trans theme_icon_path_grows)
qed

lemma theme_icons_grows:
  assumes "collect_theme_icons h ptrs isMV2 program a = Inr (program', a')"
  shows "grows (JObj program) (JObj program')"
proof -
  from assms have "program' = program \<or> (\<exists>action xs ys.
      map_of program (browserActionName isMV2) = Some (JObj action)
      \<and> map_of action ''theme_icons'' = Some (JArr xs)
      \<and> for_indexed (theme_icon h ptrs (browserActionName isMV2)) 0 xs a = Inr (ys, a')
      \<and> program' = AList.update (browserActionName isMV2)
           (JObj (AList.update ''theme_icons'' (JArr ys) action)) program)"
    by (auto simp: collect_theme_icons_def Let_def
        split: option.splits json.splits sum.splits prod.splits)
  then show ?thesis
  proof
    assume "program' = program"
    then show ?thesis by (simp add: grows_refl)
  next
    assume "\<exists>action xs ys.
      map_of program (browserActionName isMV2) = Some (JObj action)
      \<and> map_of action ''theme_icons'' = Some (JArr xs)
      \<and> for_indexed (theme_icon h ptrs (browserActionName isMV2)) 0 xs a = Inr (ys, a')
      \<and> program' = AList.update (browserActionName isMV2)
           (JObj (AList.update ''theme_icons'' (JArr ys) action)) program"
    then obtain action xs ys where
      m1: "map_of program (browserActionName isMV2) = Some (JObj action)" and
      m2: "map_of action ''theme_icons'' = Some (JArr xs)" and
      run: "for_indexed (theme_icon h ptrs (browserActionName isMV2)) 0 xs a = Inr (ys, a')" and
      p': "program' = AList.update (browserActionName isMV2)
           (JObj (AList.update ''theme_icons'' (JArr ys) action)) program"
      by blast
    have "list_all2 grows xs ys"
      using for_indexed_rel [where R = grows, OF _ run] theme_icon_grows by blast
    then have "grows (JArr xs) (JArr (ys @ []))" by (rule grows_array)
    with m2 have "grows (JObj action) (JObj (AList.update ''theme_icons'' (JArr ys) action))"
      by (simp add: grows_update_present)
    with m1 show ?thesis by (simp add: p' grows_update_present)
  qed
qed

lemma rewrite_string_grows:
  "rewrite_string h ptrs pointer v a = Inr (v', a') \<Longrightarrow> grows v v'"
  by (auto simp: rewrite_string_def addURLDependency_def grows_string split: json.splits)

lemma rewrite_value_grows:
  assumes "rewrite_value h ptrs location obj a = Inr (obj', a')"
  shows "grows obj obj'"
proof (cases obj)
  case (JStr url)
  with assms show ?thesis by (auto simp: rewrite_value_def intro: rewrite_string_grows)
next
  case (JObj members)
  with assms obtain members' where
    run: "for_indexed (rewrite_member h ptrs location) 0 members a = Inr (members', a')"
    and o: "obj' = JObj members'"
    by (auto simp: rewrite_value_def split: sum.splits prod.splits)
  have "\<And>n kv s kv' s'. rewrite_member h ptrs location n kv s = Inr (kv', s')
      \<Longrightarrow> fst kv' = fst kv \<and> grows (snd kv) (snd kv')"
    by (auto simp: rewrite_member_def split: sum.splits prod.splits
        intro: rewrite_string_grows)
  with for_indexed_rel
    [where R = "\<lambda>kv kv'. fst kv' = fst kv \<and> grows (snd kv) (snd kv')", OF _ run]
  have "list_all2 (\<lambda>kv kv'. fst kv' = fst kv \<and> grows (snd kv) (snd kv')) members members'"
    by blast
  then show ?thesis by (simp add: JObj o grows_members)
next
  case (JArr elements)
  with assms obtain elements' where
    run: "for_indexed (rewrite_element h ptrs location) 0 elements a = Inr (elements', a')"
    and o: "obj' = JArr elements'"
    by (auto simp: rewrite_value_def split: sum.splits prod.splits)
  have "\<And>n v s v' s'. rewrite_element h ptrs location n v s = Inr (v', s') \<Longrightarrow> grows v v'"
    by (auto simp: rewrite_element_def intro: rewrite_string_grows)
  with for_indexed_rel [where R = grows, OF _ run]
  have "list_all2 grows elements elements'" by blast
  then have "grows (JArr elements) (JArr (elements' @ []))" by (rule grows_array)
  then show ?thesis by (simp add: JArr o)
qed (use assms in \<open>simp_all add: rewrite_value_def\<close>)

lemma rewrite_at_grows:
  "rewrite_at h ptrs location l parent a = Inr (parent', a')
     \<Longrightarrow> grows (JObj parent) (JObj parent')"
proof (induction h ptrs location l parent a arbitrary: parent' rule: rewrite_at.induct)
  case (1 h ptrs location parent a)
  then show ?case by simp
next
  case (2 h ptrs location lastLoc parent a)
  then obtain obj obj' where "map_of parent lastLoc = Some obj"
    and "rewrite_value h ptrs location obj a = Inr (obj', a')"
    and "parent' = AList.update lastLoc obj' parent"
    by (auto split: option.splits sum.splits prod.splits)
  then show ?case by (auto intro: grows_update_present rewrite_value_grows)
next
  case (3 h ptrs location k v va parent a)
  from "3.prems" obtain child child' where
    c: "map_of parent k = Some (JObj child)" and
    r: "rewrite_at h ptrs location (v # va) child a = Inr (child', a')" and
    p': "parent' = AList.update k (JObj child') parent"
    by (auto split: option.splits json.splits sum.splits prod.splits)
  from "3.IH" [OF c refl r] c show ?case by (simp add: p' grows_update_present)
qed

lemma dep_locs_grows:
  assumes "collect_dep_locs h ptrs program a = Inr (program', a')"
  shows "grows (JObj program) (JObj program')"
proof -
  have step: "grows (JObj (fst s)) (JObj (fst s'))" if "dep_loc h ptrs l s = Inr s'" for l s s'
  proof (cases "ptrs (location_of l) = None")
    case True
    with that show ?thesis by (simp add: dep_loc_def grows_refl)
  next
    case False
    with that have "rewrite_at h ptrs (location_of l) l (fst s) (snd s) = Inr (fst s', snd s')"
      by (simp add: dep_loc_def)
    then show ?thesis by (rule rewrite_at_grows)
  qed
  from assms have run: "for_each (dep_loc h ptrs) DEP_LOCS (program, a) = Inr (program', a')"
    by (simp add: collect_dep_locs_def)
  from for_each_invariant
    [where Q = "\<lambda>s s'. grows (JObj (fst s)) (JObj (fst s'))", OF _ _ _ run]
  show ?thesis using step grows_refl grows_trans by fastforce
qed

lemma grows_push: "grows (JArr xs) (JArr (xs @ [v]))"
proof -
  have "list_all2 grows xs xs" by (simp add: list_all2_same grows_refl)
  then show ?thesis by (rule grows_array)
qed

lemma push_background_script_grows:
  assumes "push_background_script h program a = Inr (program', a')"
  shows "grows (JObj program) (JObj program')"
proof (cases "map_of program ''background''")
  case None
  with assms show ?thesis
    by (auto simp: push_background_script_def object_property_def array_property_def Let_def
        addURLDependency_def intro: grows_update_absent)
next
  case (Some v)
  with assms obtain child where v: "v = JObj child"
    by (auto simp: push_background_script_def object_property_def split: json.splits)
  have "grows (JObj child) (JObj child') \<Longrightarrow> grows (JObj program)
      (JObj (AList.update ''background'' (JObj child') program))" for child'
    using Some v by (simp add: grows_update_present)
  note outer = this
  show ?thesis
  proof (cases "map_of child ''scripts''")
    case None
    with assms Some v have "program' = AList.update ''background''
        (JObj (AList.update ''scripts'' (JArr [JStr (token h (autoreload_bg_dep h None))]) child))
        program"
      by (simp add: push_background_script_def object_property_def array_property_def
          addURLDependency_def)
    with None show ?thesis by (simp add: outer grows_update_absent)
  next
    case inner: (Some w)
    with assms Some v obtain xs where w: "w = JArr xs"
      by (auto simp: push_background_script_def object_property_def array_property_def
          split: json.splits)
    with assms Some v inner have "program' = AList.update ''background''
        (JObj (AList.update ''scripts''
           (JArr (xs @ [JStr (token h (autoreload_bg_dep h None))])) child))
        program"
      by (simp add: push_background_script_def object_property_def array_property_def
          addURLDependency_def)
    with inner w show ?thesis by (simp add: outer grows_update_present grows_push)
  qed
qed

lemma background_mv2_grows:
  assumes "collect_background_mv2 h hot flag program a = Inr (program', a')"
  shows "grows (JObj program) (JObj program')"
proof (cases hot)
  case False
  with assms show ?thesis by (simp add: collect_background_mv2_def grows_refl)
next
  case True
  with assms obtain policy where
    sp: "string_property program ''content_security_policy'' = Inr policy" and
    r: "(if flag
         then push_background_script h
                (AList.update ''content_security_policy'' (JStr (cspPatchHMR policy)) program) a
         else Inr (AList.update ''content_security_policy'' (JStr (cspPatchHMR policy)) program, a))
        = Inr (program', a')"
    by (auto simp: collect_background_mv2_def Let_def split: sum.splits)
  from sp have g1: "grows (JObj program)
      (JObj (AList.update ''content_security_policy'' (JStr (cspPatchHMR policy)) program))"
    by (auto simp: string_property_def grows_string split: option.splits json.splits
        intro: grows_update_absent grows_update_present)
  show ?thesis
  proof (cases flag)
    case False
    with r g1 show ?thesis by simp
  next
    case True
    with r have "push_background_script h
        (AList.update ''content_security_policy'' (JStr (cspPatchHMR policy)) program) a
        = Inr (program', a')" by simp
    from g1 push_background_script_grows [OF this] show ?thesis by (rule grows_trans)
  qed
qed

lemma background_mv3_grows:
  assumes "collect_background_mv3 h flag program a = Inr (program', a')"
  shows "grows (JObj program) (JObj program')"
proof (cases "map_of program ''background''")
  case None
  with assms show ?thesis
    by (auto simp: collect_background_mv3_def object_property_def string_property_def Let_def
        addURLDependency_def nonempty_def grows_refl split: if_splits
        intro: grows_update_absent)
next
  case (Some v)
  with assms obtain child where v: "v = JObj child"
    by (auto simp: collect_background_mv3_def object_property_def split: json.splits)
  from assms Some v have "program' = program \<or> (\<exists>t.
      (map_of child ''service_worker'' = None
         \<or> (\<exists>s. map_of child ''service_worker'' = Some (JStr s)))
      \<and> program' = AList.update ''background''
           (JObj (AList.update ''service_worker'' (JStr t) child)) program)"
    by (auto simp: collect_background_mv3_def object_property_def string_property_def Let_def
        addURLDependency_def nonempty_def
        split: option.splits json.splits sum.splits if_splits)
  then show ?thesis
  proof
    assume "program' = program"
    then show ?thesis by (simp add: grows_refl)
  next
    assume "\<exists>t. (map_of child ''service_worker'' = None
         \<or> (\<exists>s. map_of child ''service_worker'' = Some (JStr s)))
      \<and> program' = AList.update ''background''
           (JObj (AList.update ''service_worker'' (JStr t) child)) program"
    then obtain t where
      sw: "map_of child ''service_worker'' = None
         \<or> (\<exists>s. map_of child ''service_worker'' = Some (JStr s))"
      and p': "program' = AList.update ''background''
           (JObj (AList.update ''service_worker'' (JStr t) child)) program"
      by blast
    from sw have "grows (JObj child) (JObj (AList.update ''service_worker'' (JStr t) child))"
      by (auto intro: grows_update_absent grows_update_present grows_string)
    with Some v show ?thesis by (simp add: p' grows_update_present)
  qed
qed

lemma background_grows:
  "collect_background h isMV2 hot flag program a = Inr (program', a')
     \<Longrightarrow> grows (JObj program) (JObj program')"
  by (auto simp: collect_background_def split: if_splits
      intro: background_mv2_grows background_mv3_grows)

lemma background_frame:
  assumes "collect_background h isMV2 hot flag program a = Inr (program', a')"
      and "k \<noteq> ''content_security_policy''" and "k \<noteq> ''background''"
  shows "map_of program' k = map_of program k"
proof -
  have d: "diverge [k] [''content_security_policy'']"
    "diverge [k] [''background'', ''service_worker'']"
    "diverge [k] [''background'', ''scripts'']"
    using assms(2,3) by simp_all
  from background_other_path [OF assms(1) d(1) d(2)] d(3)
  have "get_path (JObj program') (map Key [k]) = get_path (JObj program) (map Key [k])"
    by blast
  then show ?thesis by (simp split: option.splits)
qed

lemma is_string_iff: "is_string v \<longleftrightarrow> (\<exists>s. v = JStr s)"
  by (cases v) simp_all

lemma same_kinds_strings:
  assumes "list_all is_string xs" and "list_all is_string ys"
  shows "same_kinds (JArr xs) (JArr ys)"
  unfolding same_kinds_def
proof (intro allI impI)
  fix p w w'
  assume g: "get_path (JArr xs) p = Some w" and g': "get_path (JArr ys) p = Some w'"
  show "kind_of w' = kind_of w"
  proof (cases p)
    case Nil
    with g g' show ?thesis by auto
  next
    case (Cons s r)
    show ?thesis
    proof (cases s)
      case (Key x)
      with g Cons show ?thesis by simp
    next
      case (Index i)
      with g g' Cons have i: "i < length xs" "i < length ys"
        and a: "get_path (xs ! i) r = Some w" and b: "get_path (ys ! i) r = Some w'"
        by (auto split: if_splits)
      from assms(1) i(1) have "is_string (xs ! i)" by (simp add: list_all_length)
      then obtain s where s: "xs ! i = JStr s" by (auto simp: is_string_iff)
      from assms(2) i(2) have "is_string (ys ! i)" by (simp add: list_all_length)
      then obtain t where t: "ys ! i = JStr t" by (auto simp: is_string_iff)
      from a b s t show ?thesis by (cases r) auto
    qed
  qed
qed

lemma same_kinds_array:
  assumes "list_all2 same_kinds xs ys"
  shows "same_kinds (JArr xs) (JArr ys)"
  unfolding same_kinds_def
proof (intro allI impI)
  fix p w w'
  assume g: "get_path (JArr xs) p = Some w" and g': "get_path (JArr ys) p = Some w'"
  show "kind_of w' = kind_of w"
  proof (cases p)
    case Nil
    with g g' show ?thesis by auto
  next
    case (Cons s r)
    show ?thesis
    proof (cases s)
      case (Key x)
      with g Cons show ?thesis by simp
    next
      case (Index i)
      with g g' Cons have i: "i < length xs"
        and a: "get_path (xs ! i) r = Some w" and b: "get_path (ys ! i) r = Some w'"
        by (auto split: if_splits)
      from assms i have "same_kinds (xs ! i) (ys ! i)" by (simp add: list_all2_nthD)
      with a b show ?thesis unfolding same_kinds_def by blast
    qed
  qed
qed

lemma same_kinds_update:
  assumes "map_of obj k = Some v" and "same_kinds v v'"
  shows "same_kinds (JObj obj) (JObj (AList.update k v' obj))"
  unfolding same_kinds_def
proof (intro allI impI)
  fix p w w'
  assume g: "get_path (JObj obj) p = Some w"
    and g': "get_path (JObj (AList.update k v' obj)) p = Some w'"
  show "kind_of w' = kind_of w"
  proof (cases p)
    case Nil
    with g g' show ?thesis by auto
  next
    case (Cons s r)
    show ?thesis
    proof (cases s)
      case (Index i)
      with g Cons show ?thesis by simp
    next
      case (Key x)
      show ?thesis
      proof (cases "x = k")
        case True
        with g g' Cons Key assms(1) have "get_path v r = Some w" "get_path v' r = Some w'"
          by (simp_all add: update_conv')
        with assms(2) show ?thesis unfolding same_kinds_def by blast
      next
        case False
        with g g' show ?thesis by (simp add: Cons Key map_of_update_other)
      qed
    qed
  qed
qed

lemma glob_files_tokens:
  "glob_files h ptrs isMV2 i pattern a = Inr (ts, a') \<Longrightarrow> list_all is_string (map JStr ts)"
  by (simp add: list_all_iff)

lemma resource_mv2:
  assumes "web_accessible_resource h ptrs True i files a = Inr (added, a')"
  shows "is_string files \<and> list_all is_string added"
  using assms
  by (auto simp: web_accessible_resource_def list_all_iff
      split: json.splits sum.splits prod.splits)

lemma resource_mv3:
  assumes "web_accessible_resource h ptrs False i files a = Inr (added, a')"
  shows "\<exists>files'. added = [files'] \<and> same_kinds files files'"
proof -
  from assms obtain entry resources ts where f: "files = JObj entry"
    and r: "map_of entry ''resources'' = Some (JArr resources)"
    and s: "list_all is_string resources"
    and a: "added = [JObj (AList.update ''resources'' (JArr (map JStr ts)) entry)]"
    by (auto simp: web_accessible_resource_def
        split: json.splits option.splits if_splits sum.splits prod.splits)
  have "same_kinds (JArr resources) (JArr (map JStr ts))"
    using s by (rule same_kinds_strings) (simp add: list_all_iff)
  with r have "same_kinds (JObj entry) (JObj (AList.update ''resources'' (JArr (map JStr ts)) entry))"
    by (rule same_kinds_update)
  with f a show ?thesis by simp
qed

lemma concat_strings:
  "list_all2 (\<lambda>x ys. is_string x \<and> list_all is_string ys) xs yss
     \<Longrightarrow> list_all is_string xs \<and> list_all is_string (concat yss)"
  by (induction rule: list_all2_induct) auto

lemma concat_singletons:
  "list_all2 (\<lambda>x ys. \<exists>y. ys = [y] \<and> R x y) xs yss \<Longrightarrow> list_all2 R xs (concat yss)"
  by (induction rule: list_all2_induct) auto

lemma web_accessible_resources_same_kinds:
  assumes "collect_web_accessible_resources h ptrs isMV2 program a = Inr (program', a')"
  shows "same_kinds (JObj program) (JObj program')"
proof (cases "map_of program ''web_accessible_resources''")
  case None
  with assms show ?thesis
    by (simp add: collect_web_accessible_resources_def grows_refl grows_same_kinds)
next
  case (Some v)
  with assms obtain entries added where v: "v = JArr entries"
    and run: "for_indexed (web_accessible_resource h ptrs isMV2) 0 entries a = Inr (added, a')"
    and p': "program' = AList.update ''web_accessible_resources'' (JArr (concat added)) program"
    by (auto simp: collect_web_accessible_resources_def
        split: json.splits sum.splits prod.splits)
  have "same_kinds (JArr entries) (JArr (concat added))"
  proof (cases isMV2)
    case True
    have "list_all2 (\<lambda>x ys. is_string x \<and> list_all is_string ys) entries added"
    proof (rule for_indexed_rel [OF _ run])
      fix i x s y s'
      assume "web_accessible_resource h ptrs isMV2 i x s = Inr (y, s')"
      with True show "is_string x \<and> list_all is_string y" by (auto dest: resource_mv2)
    qed
    from concat_strings [OF this] show ?thesis by (simp add: same_kinds_strings)
  next
    case False
    have "list_all2 (\<lambda>x ys. \<exists>y. ys = [y] \<and> same_kinds x y) entries added"
    proof (rule for_indexed_rel [OF _ run])
      fix i x s y s'
      assume "web_accessible_resource h ptrs isMV2 i x s = Inr (y, s')"
      with False show "\<exists>z. y = [z] \<and> same_kinds x z" by (auto dest: resource_mv3)
    qed
    from concat_singletons [OF this] show ?thesis by (rule same_kinds_array)
  qed
  with Some v show ?thesis by (simp add: p' same_kinds_update)
qed


subsection \<open>Parsing a policy that the patch has printed\<close>

lemma split_on_nonempty: "split_on c s \<noteq> []"
  by (induction s) (auto split: list.splits)

lemma split_on_pieces: "w \<in> set (split_on c s) \<Longrightarrow> c \<notin> set w"
  by (induction s arbitrary: w) (auto split: if_splits list.splits)

lemma split_on_piece_chars: "w \<in> set (split_on c s) \<Longrightarrow> x \<in> set w \<Longrightarrow> x \<in> set s"
proof (induction s arbitrary: w)
  case Nil
  then show ?case by simp
next
  case (Cons a s)
  obtain v vs where sp: "split_on c s = v # vs"
    using split_on_nonempty [of c s] by (cases "split_on c s") auto
  show ?case
  proof (cases "a = c")
    case True
    with Cons show ?thesis by auto
  next
    case False
    with Cons.prems sp have "w = a # v \<or> w \<in> set vs" by simp
    then show ?thesis
    proof
      assume "w = a # v"
      with Cons.prems(2) have "x = a \<or> x \<in> set v" by simp
      with Cons.IH [of v] sp show ?thesis by auto
    next
      assume "w \<in> set vs"
      with Cons.IH [of w] sp Cons.prems(2) show ?thesis by simp
    qed
  qed
qed

lemma split_on_append: "c \<notin> set w \<Longrightarrow> split_on c (w @ c # s) = w # split_on c s"
  by (induction w) auto

lemma split_spaces_nonempty: "split_spaces s \<noteq> []"
proof (induction s rule: split_spaces.induct)
  case 1
  show ?case by simp
next
  case (2 x xs)
  show ?case
  proof (cases "is_space x")
    case True
    show ?thesis
    proof (cases xs)
      case Nil
      with True show ?thesis by simp
    next
      case (Cons y ys)
      show ?thesis
      proof (cases "is_space y")
        case sp: True
        with True Cons "2.IH"(1) [OF True Cons sp] show ?thesis by simp
      next
        case nsp: False
        with True Cons show ?thesis by simp
      qed
    qed
  next
    case False
    then show ?thesis by (cases "split_spaces xs") simp_all
  qed
qed

lemma split_spaces_chars:
  "w \<in> set (split_spaces s) \<Longrightarrow> c \<in> set w \<Longrightarrow> c \<in> set s \<and> \<not> is_space c"
proof (induction s arbitrary: w rule: split_spaces.induct)
  case 1
  then show ?case by simp
next
  case (2 x xs)
  show ?case
  proof (cases "is_space x")
    case True
    show ?thesis
    proof (cases xs)
      case Nil
      with True "2.prems" show ?thesis by simp
    next
      case (Cons y ys)
      show ?thesis
      proof (cases "is_space y")
        case sp: True
        with True Cons "2.prems" "2.IH"(1) [OF True Cons sp, of w] show ?thesis by simp
      next
        case nsp: False
        with True Cons "2.prems" have "w \<in> set (split_spaces xs)" by auto
        with "2.prems" "2.IH"(2) [OF True Cons nsp, of w] show ?thesis by simp
      qed
    qed
  next
    case False
    obtain v vs where sp: "split_spaces xs = v # vs"
      using split_spaces_nonempty [of xs] by (cases "split_spaces xs") auto
    with False "2.prems" have "w = x # v \<or> w \<in> set vs" by simp
    then show ?thesis
    proof
      assume w: "w = x # v"
      with "2.prems"(2) have "c = x \<or> c \<in> set v" by simp
      with "2.IH"(3) [OF False, of v] sp False show ?thesis by auto
    next
      assume "w \<in> set vs"
      with "2.IH"(3) [OF False, of w] sp "2.prems"(2) show ?thesis by simp
    qed
  qed
qed

lemma split_spaces_pieces:
  "s \<noteq> [] \<Longrightarrow> \<not> is_space (last s)
    \<Longrightarrow> (\<forall>w\<in>set (tl (split_spaces s)). w \<noteq> [])
        \<and> (\<not> is_space (hd s) \<longrightarrow> hd (split_spaces s) \<noteq> [])"
proof (induction s rule: split_spaces.induct)
  case 1
  then show ?case by simp
next
  case (2 x xs)
  show ?case
  proof (cases "is_space x")
    case True
    with "2.prems" obtain y ys where xs: "xs = y # ys" by (cases xs) auto
    from xs "2.prems" have ne: "xs \<noteq> []" and l: "\<not> is_space (last xs)" by simp_all
    from xs have h: "hd xs = y" by simp
    show ?thesis
    proof (cases "is_space y")
      case sp: True
      have eq: "split_spaces (x # xs) = split_spaces xs" using True xs sp by simp
      from "2.IH"(1) [OF True xs sp ne l]
      have "\<forall>w\<in>set (tl (split_spaces xs)). w \<noteq> []" by (rule conjunct1)
      with True show ?thesis unfolding eq by simp
    next
      case nsp: False
      have eq: "split_spaces (x # xs) = [] # split_spaces xs" using True xs nsp by simp
      from "2.IH"(2) [OF True xs nsp ne l] h nsp
      have "(\<forall>w\<in>set (tl (split_spaces xs)). w \<noteq> [])" and "hd (split_spaces xs) \<noteq> []"
        by simp_all
      moreover obtain v vs where "split_spaces xs = v # vs"
        using split_spaces_nonempty [of xs] by (cases "split_spaces xs") auto
      ultimately have "\<forall>w\<in>set (split_spaces xs). w \<noteq> []" by simp
      with True show ?thesis unfolding eq by simp
    qed
  next
    case False
    obtain v vs where sp: "split_spaces xs = v # vs"
      using split_spaces_nonempty [of xs] by (cases "split_spaces xs") auto
    from False sp have eq: "split_spaces (x # xs) = (x # v) # vs" by simp
    show ?thesis
    proof (cases "xs = []")
      case True
      with sp have "vs = []" by simp
      then show ?thesis unfolding eq by simp
    next
      case ne: False
      with "2.prems" have l: "\<not> is_space (last xs)" by simp
      from "2.IH"(3) [OF False ne l] have "\<forall>w\<in>set (tl (split_spaces xs)). w \<noteq> []"
        by (rule conjunct1)
      with sp show ?thesis unfolding eq by simp
    qed
  qed
qed

lemma split_spaces_word: "\<forall>c\<in>set w. \<not> is_space c \<Longrightarrow> split_spaces w = [w]"
  by (induction w) auto

lemma split_spaces_append:
  assumes "\<forall>c\<in>set w. \<not> is_space c" and "s \<noteq> []" and "\<not> is_space (hd s)"
  shows "split_spaces (w @ CHR 0x20 # s) = w # split_spaces s"
  using assms
proof (induction w)
  case Nil
  then show ?case by (cases s) (auto simp: is_space_def)
next
  case (Cons a w)
  then show ?case by simp
qed

lemma trim_chars: "set (trim s) \<subseteq> set s"
  by (auto simp: trim_def dest!: set_dropWhileD)

lemma trim_last: "trim s \<noteq> [] \<Longrightarrow> \<not> is_space (last (trim s))"
  by (simp add: trim_def last_rev hd_dropWhile)

lemma trim_hd: "trim s \<noteq> [] \<Longrightarrow> \<not> is_space (hd (trim s))"
proof -
  assume ne: "trim s \<noteq> []"
  then have d: "dropWhile is_space (rev (dropWhile is_space s)) \<noteq> []" by (simp add: trim_def)
  have r: "rev (dropWhile is_space s) \<noteq> []"
  proof
    assume "rev (dropWhile is_space s) = []"
    with d show False by simp
  qed
  have "hd (trim s) = last (dropWhile is_space (rev (dropWhile is_space s)))"
    using d by (simp add: trim_def hd_rev)
  also have "\<dots> = last (rev (dropWhile is_space s))"
    using d by (metis last_appendR takeWhile_dropWhile_id)
  also have "\<dots> = hd (dropWhile is_space s)" using r by (simp add: last_rev)
  finally show ?thesis using r by (simp add: hd_dropWhile)
qed

lemma trim_id: "s \<noteq> [] \<Longrightarrow> \<not> is_space (hd s) \<Longrightarrow> \<not> is_space (last s) \<Longrightarrow> trim s = s"
proof -
  assume a: "s \<noteq> []" "\<not> is_space (hd s)" "\<not> is_space (last s)"
  then have "dropWhile is_space s = s" by (cases s) auto
  moreover from a have "dropWhile is_space (rev s) = rev s"
    by (cases "rev s") (auto simp: last_rev [symmetric] simp del: last_rev)
  ultimately show ?thesis by (simp add: trim_def)
qed

lemma trim_word_space: "is_token k \<Longrightarrow> trim (k @ '' '') = k"
proof -
  assume w: "is_token k"
  then obtain c cs where k: "k = c # cs" and c: "\<not> is_space c" by (cases k) (auto simp: is_token_def)
  from w have "k \<noteq> []" "\<not> is_space (last k)" by (auto simp: is_token_def)
  then have "dropWhile is_space (rev k) = rev k" by (cases k rule: rev_cases) auto
  with k c show ?thesis by (simp add: trim_def is_space_def)
qed

lemma parse_pieces_words:
  assumes semi: "CHR '';'' \<notin> set d" and ne: "trim d \<noteq> []"
    and sp: "split_spaces (trim d) = key # split"
  shows "is_token key \<and> list_all is_token split"
proof -
  from split_spaces_pieces [OF ne trim_last [OF ne]] trim_hd [OF ne] sp
  have nonempty: "key \<noteq> []" "\<forall>w\<in>set split. w \<noteq> []" by simp_all
  have chars: "\<not> is_space c \<and> c \<noteq> CHR '';''"
    if "w \<in> set (key # split)" and "c \<in> set w" for w c
  proof -
    from that sp have "w \<in> set (split_spaces (trim d))" by simp
    from split_spaces_chars [OF this that(2)] trim_chars [of d] semi show ?thesis by auto
  qed
  from nonempty chars show ?thesis by (auto simp: is_token_def list_all_iff)
qed

lemma add_property_fits:
  "\<forall>kv\<in>set c. \<not> enumerated_before k (fst kv) \<Longrightarrow> add_property k v c = c @ [(k, v)]"
  by (induction c) (auto simp: enumerated_before_def)

lemma add_property_set: "set (add_property k v c) = insert (k, v) (set c)"
  by (induction c) (auto split: if_splits)

lemma add_property_distinct:
  "map_of c k = None \<Longrightarrow> distinct (map fst c) \<Longrightarrow> distinct (map fst (add_property k v c))"
  by (induction c) (auto simp: add_property_set map_of_eq_None_iff split: if_splits)

lemma add_property_sorted:
  "sorted_wrt (\<lambda>x y. \<not> enumerated_before (fst y) (fst x)) c
    \<Longrightarrow> sorted_wrt (\<lambda>x y. \<not> enumerated_before (fst y) (fst x)) (add_property k v c)"
proof (induction c)
  case Nil
  then show ?case by simp
next
  case (Cons kv c)
  obtain k' v' where kv: "kv = (k', v')" by (cases kv)
  show ?case
  proof (cases "enumerated_before k k'")
    case True
    have "\<not> enumerated_before k' k" using True by (auto simp: enumerated_before_def)
    moreover have "\<not> enumerated_before (fst r) k" if "r \<in> set c" for r
    proof -
      from Cons.prems that kv have "\<not> enumerated_before (fst r) k'" by auto
      with True show ?thesis by (auto simp: enumerated_before_def)
    qed
    ultimately show ?thesis using True Cons.prems kv by (auto simp: enumerated_before_def)
  next
    case False
    with Cons kv show ?thesis by (auto simp: enumerated_before_def add_property_set)
  qed
qed

lemma well_formed_empty: "well_formed []"
  by (simp add: well_formed_def)

lemma well_formed_add:
  assumes "well_formed c" and "map_of c k = None" and "is_token k" and "list_all is_token ts"
  shows "well_formed (add_property k ts c)"
  using assms
  by (auto simp: well_formed_def list_all_iff add_property_set
      intro: add_property_distinct add_property_sorted)

lemma parse_directive_well_formed:
  assumes "well_formed c" and "CHR '';'' \<notin> set d"
  shows "well_formed (parse_directive c d)"
proof (cases "trim d = []")
  case True
  with assms show ?thesis by (simp add: parse_directive_def)
next
  case False
  obtain key split where sp: "split_spaces (trim d) = key # split"
    using split_spaces_nonempty [of "trim d"] by (cases "split_spaces (trim d)") auto
  from parse_pieces_words [OF assms(2) False sp] have "is_token key" "list_all is_token split"
    by simp_all
  with assms(1) False sp show ?thesis
    by (simp add: parse_directive_def well_formed_add)
qed

lemma foldl_parse_well_formed:
  "well_formed c \<Longrightarrow> \<forall>d\<in>set ds. CHR '';'' \<notin> set d
    \<Longrightarrow> well_formed (foldl parse_directive c ds)"
  by (induction ds arbitrary: c) (simp_all add: parse_directive_well_formed)

lemma parseCSP_well_formed: "well_formed (parseCSP p)"
  unfolding parseCSP_def
  by (rule foldl_parse_well_formed) (auto simp: well_formed_empty dest: split_on_pieces)

lemma serialize_pieces: "serialize c = concat (map (\<lambda>kv. directive_piece kv @ '';'') c)"
  by (simp add: serialize_def directive_piece_def)

lemma join_chars: "c \<in> set (join sep ws) \<Longrightarrow> c \<in> set sep \<or> (\<exists>w\<in>set ws. c \<in> set w)"
  by (induction sep ws rule: join.induct) auto

lemma piece_no_semicolon:
  assumes "is_token (fst kv)" and "list_all is_token (snd kv)"
  shows "CHR '';'' \<notin> set (directive_piece kv)"
proof
  assume "CHR '';'' \<in> set (directive_piece kv)"
  then have "CHR '';'' \<in> set (fst kv) \<or> CHR '';'' \<in> set (join '' '' (snd kv))"
    by (auto simp: directive_piece_def)
  then show False
  proof
    assume "CHR '';'' \<in> set (fst kv)"
    with assms(1) show False unfolding is_token_def by blast
  next
    assume "CHR '';'' \<in> set (join '' '' (snd kv))"
    from join_chars [OF this] obtain w where "w \<in> set (snd kv)" "CHR '';'' \<in> set w"
      by auto
    with assms(2) show False unfolding is_token_def list_all_iff by blast
  qed
qed

lemma split_on_serialize:
  "\<forall>kv\<in>set c. CHR '';'' \<notin> set (directive_piece kv)
    \<Longrightarrow> split_on CHR '';'' (serialize c) = map directive_piece c @ [[]]"
proof (induction c)
  case Nil
  show ?case by (simp add: serialize_def)
next
  case (Cons kv c)
  have "serialize (kv # c) = directive_piece kv @ CHR '';'' # serialize c"
    by (simp add: serialize_pieces)
  with Cons show ?case by (simp add: split_on_append)
qed

lemma join_words:
  "ws \<noteq> [] \<Longrightarrow> list_all is_token ws
    \<Longrightarrow> split_spaces (join '' '' ws) = ws \<and> join '' '' ws \<noteq> []
        \<and> \<not> is_space (hd (join '' '' ws)) \<and> \<not> is_space (last (join '' '' ws))"
proof (induction "'' ''" ws rule: join.induct)
  case 1
  then show ?case by simp
next
  case (2 x)
  then show ?case by (auto simp: is_token_def split_spaces_word)
next
  case (3 x y ys)
  then have ih: "split_spaces (join '' '' (y # ys)) = y # ys" "join '' '' (y # ys) \<noteq> []"
    "\<not> is_space (hd (join '' '' (y # ys)))" "\<not> is_space (last (join '' '' (y # ys)))"
    by simp_all
  from "3.prems" have x: "x \<noteq> []" "\<forall>c\<in>set x. \<not> is_space c" by (auto simp: is_token_def)
  have j: "join '' '' (x # y # ys) = x @ CHR 0x20 # join '' '' (y # ys)" by simp
  from split_spaces_append [OF x(2) ih(2) ih(3)] ih x show ?case
    unfolding j by (simp add: hd_append)
qed

lemma parse_piece:
  assumes k: "is_token k" and ts: "list_all is_token ts"
  shows "parse_directive r (directive_piece (k, ts))
           = (if map_of r k = None then add_property k ts r else r)"
proof (cases ts)
  case Nil
  from k have "split_spaces k = [k]" "k \<noteq> []" by (auto simp: is_token_def split_spaces_word)
  with Nil trim_word_space [OF k] show ?thesis
    by (simp add: parse_directive_def directive_piece_def)
next
  case (Cons t ts')
  then have p: "directive_piece (k, ts) = join '' '' (k # ts)" by (simp add: directive_piece_def)
  from k ts have "list_all is_token (k # ts)" by simp
  from join_words [OF _ this]
  have j: "split_spaces (join '' '' (k # ts)) = k # ts" "join '' '' (k # ts) \<noteq> []"
    "\<not> is_space (hd (join '' '' (k # ts)))" "\<not> is_space (last (join '' '' (k # ts)))"
    by simp_all
  from trim_id [OF j(2) j(3) j(4)] j(1) j(2) show ?thesis
    unfolding p by (simp add: parse_directive_def)
qed

lemma parse_directive_empty: "parse_directive r [] = r"
  by (simp add: parse_directive_def trim_def)

lemma foldl_parse_pieces:
  "well_formed (acc @ c) \<Longrightarrow> foldl parse_directive acc (map directive_piece c) = acc @ c"
proof (induction c arbitrary: acc)
  case Nil
  show ?case by simp
next
  case (Cons kv c)
  obtain k ts where kv: "kv = (k, ts)" by (cases kv)
  from Cons.prems kv have w: "is_token k" "list_all is_token ts"
    and absent: "map_of acc k = None"
    and fits: "\<forall>x\<in>set acc. \<not> enumerated_before k (fst x)"
    by (auto simp: well_formed_def sorted_wrt_append map_of_eq_None_iff)
  from parse_piece [OF w] absent add_property_fits [OF fits]
  have "parse_directive acc (directive_piece kv) = acc @ [kv]" by (simp add: kv)
  moreover from Cons.prems have "well_formed ((acc @ [kv]) @ c)" by simp
  from Cons.IH [OF this] have "foldl parse_directive (acc @ [kv]) (map directive_piece c) = acc @ kv # c"
    by simp
  ultimately show ?case by simp
qed

lemma parse_serialize:
  assumes "well_formed c"
  shows "parseCSP (serialize c) = c"
proof -
  have "\<forall>kv\<in>set c. CHR '';'' \<notin> set (directive_piece kv)"
  proof
    fix kv
    assume "kv \<in> set c"
    with assms have "is_token (fst kv)" "list_all is_token (snd kv)"
      by (simp_all add: well_formed_def list_all_iff)
    then show "CHR '';'' \<notin> set (directive_piece kv)" by (rule piece_no_semicolon)
  qed
  from split_on_serialize [OF this] foldl_parse_pieces [of "[]" c] assms show ?thesis
    by (simp add: parseCSP_def parse_directive_empty)
qed


subsection \<open>A step seen from the whole walk\<close>

lemma default_locale_extends:
  assumes "collect_default_locale h ptrs program a = Inr a1"
  shows "\<exists>new. a1 = a\<lparr>dependencies := dependencies a @ new\<rparr>"
proof -
  have e: "\<exists>new. x = x\<lparr>dependencies := dependencies x @ new\<rparr>" for x :: asset
    by (rule exI [of _ "[]"]) simp
  from assms show ?thesis
    by (auto simp: collect_default_locale_def Let_def foldl_add_locales e
        split: option.splits json.splits if_splits)
qed

lemma later_steps_extend:
  assumes s4: "collect_theme_icons h ptrs isMV2 program3 a3 = Inr (program4, a4)"
      and s5: "collect_web_accessible_resources h ptrs isMV2 program4 a4 = Inr (program5, a5)"
      and s6: "collect_dep_locs h ptrs program5 a5 = Inr (program6, a6)"
      and s7: "collect_background h isMV2 hot flag program6 a6 = Inr (program', a')"
  shows "\<exists>after. a' = a3\<lparr>dependencies := dependencies a3 @ after\<rparr>"
proof -
  have "extends_by not_raw a3 a'"
    using theme_icons_extends [OF s4] web_accessible_resources_extends [OF s5]
      dep_locs_extends [OF s6] background_extends [OF s7]
    by (blast intro: extends_by_trans)
  then show ?thesis by (auto simp: extends_by_def)
qed

lemma later_steps_frame:
  assumes s4: "collect_theme_icons h ptrs isMV2 program3 a3 = Inr (program4, a4)"
      and s5: "collect_web_accessible_resources h ptrs isMV2 program4 a4 = Inr (program5, a5)"
      and s6: "collect_dep_locs h ptrs program5 a5 = Inr (program6, a6)"
      and s7: "collect_background h isMV2 hot flag program6 a6 = Inr (program', a')"
      and k: "k = ''content_scripts'' \<or> k = ''dictionaries''"
  shows "map_of program' k = map_of program3 k"
proof -
  from k have "k \<noteq> browserActionName isMV2" "k \<noteq> ''web_accessible_resources''"
    "k \<notin> set (map hd DEP_LOCS)" "k \<noteq> ''content_security_policy''" "k \<noteq> ''background''"
    by (auto simp: browserActionName_def DEP_LOCS_def)
  with theme_icons_frame [OF s4, of k] web_accessible_resources_frame [OF s5, of k]
    dep_locs_frame [OF s6, of k] background_frame [OF s7, of k]
  show ?thesis by simp
qed

lemma content_scripts_step:
  assumes run: "collect_content_scripts h ptrs hot program a = Inr (program', a', needRuntimeBG)"
      and cs: "map_of program ''content_scripts'' = Some (JArr scs)"
      and i: "i < length scs"
  shows "(\<exists>sc css js before after.
            scs ! i = JObj sc
          \<and> map_of sc ''css'' = map_option (\<lambda>us. JArr (map JStr us)) css
          \<and> map_of sc ''js'' = map_option (\<lambda>us. JArr (map JStr us)) js
          \<and> get_path (JObj program') [Key ''content_scripts'', Index i] =
              Some (JObj (set_tokens h ''js'' js
                            (asset_deps (filePath a) ptrs i ''js'' js @ reload_deps h hot js)
                            (set_tokens h ''css'' css
                               (asset_deps (filePath a) ptrs i ''css'' css) sc)))
          \<and> dependencies a' =
              dependencies a @ before
              @ asset_deps (filePath a) ptrs i ''css'' css
              @ asset_deps (filePath a) ptrs i ''js'' js
              @ reload_deps h hot js
              @ after
          \<and> (reload_deps h hot js \<noteq> [] \<longrightarrow> needRuntimeBG))
       \<and> needRuntimeBG = (hot \<and> list_ex declares_js scs)"
proof -
  from run cs obtain scs' where
    loop: "for_indexed (content_script h ptrs hot) 0 scs (a, False) = Inr (scs', a', needRuntimeBG)"
    and p': "program' = AList.update ''content_scripts'' (JArr scs') program"
    by (auto simp: collect_content_scripts_def split: sum.splits prod.splits)
  have len: "length scs' = length scs" using loop by (rule for_indexed_length)
  from loop i obtain s1 s2 where
    pre: "for_indexed (content_script h ptrs hot) 0 (take i scs) (a, False) = Inr (take i scs', s1)"
    and step: "content_script h ptrs hot (0 + i) (scs ! i) s1 = Inr (scs' ! i, s2)"
    and post: "for_indexed (content_script h ptrs hot) (Suc (0 + i)) (drop (Suc i) scs) s2
                 = Inr (drop (Suc i) scs', a', needRuntimeBG)"
    by (rule for_indexed_nth)
  obtain a1 f1 where s1: "s1 = (a1, f1)" by (cases s1)
  obtain a2 f2 where s2: "s2 = (a2, f2)" by (cases s2)
  from content_scripts_loop_extends [OF pre] obtain before where
    a1: "a1 = a\<lparr>dependencies := dependencies a @ before\<rparr>"
    by (auto simp: extends_by_def s1)
  from content_scripts_loop_extends [OF post] obtain after where
    a': "a' = a2\<lparr>dependencies := dependencies a2 @ after\<rparr>"
    by (auto simp: extends_by_def s2)
  from step obtain sc css js where v: "scs ! i = JObj sc"
    and css: "map_of sc ''css'' = map_option (\<lambda>us. JArr (map JStr us)) css"
    and js: "map_of sc ''js'' = map_option (\<lambda>us. JArr (map JStr us)) js"
    by (rule content_script_shape)
  have fp: "filePath a1 = filePath a" by (simp add: a1)
  from content_script_closed [OF css js, of h ptrs hot i a1 f1] step
  have entry: "scs' ! i =
        JObj (set_tokens h ''js'' js
                (asset_deps (filePath a) ptrs i ''js'' js @ reload_deps h hot js)
                (set_tokens h ''css'' css (asset_deps (filePath a) ptrs i ''css'' css) sc))"
    and a2: "a2 = a1\<lparr>dependencies := dependencies a1
               @ asset_deps (filePath a) ptrs i ''css'' css
               @ asset_deps (filePath a) ptrs i ''js'' js
               @ reload_deps h hot js\<rparr>"
    and f2: "f2 = (f1 \<or> reload_deps h hot js \<noteq> [])"
    by (simp_all add: v s1 s2 fp)
  have deps: "dependencies a' =
      dependencies a @ before
      @ asset_deps (filePath a) ptrs i ''css'' css
      @ asset_deps (filePath a) ptrs i ''js'' js
      @ reload_deps h hot js
      @ after"
    by (simp add: a' a2 a1)
  have path: "get_path (JObj program') [Key ''content_scripts'', Index i] = Some (scs' ! i)"
    using i len by (simp add: p' update_conv')
  from content_scripts_loop_flag [OF post] f2
  have set: "reload_deps h hot js \<noteq> [] \<longrightarrow> needRuntimeBG"
    by (simp add: s2)
  from content_scripts_loop_flag [OF loop]
  have flag: "needRuntimeBG = (hot \<and> list_ex declares_js scs)" by simp
  from v css js path entry deps set flag show ?thesis by auto
qed

section \<open>The claims\<close>

text \<open>
  C4, on the code as it is. For every policy string that is not empty and has no
  \<^verbatim>\<open>script-src\<close> directive, the patched policy is the directives of the input, each
  followed by \<^verbatim>\<open>;\<close> and in their order, and then a \<^verbatim>\<open>script-src\<close> directive whose
  source list is \<^verbatim>\<open>'self' 'unsafe-eval' blob: filesystem: 'unsafe-eval'\<close>: the token
  \<^verbatim>\<open>'unsafe-eval'\<close> is appended to the default list, which already holds it, because
  line 304 stores that list as one string.
\<close>

theorem patch_without_script_src:
  assumes "p \<noteq> []" and "directive p ''script-src'' = None"
  shows "cspPatchHMR (Some p) =
           serialize (parseCSP p)
           @ ''script-src 'self' 'unsafe-eval' blob: filesystem: 'unsafe-eval';''"
proof -
  define csp where "csp = parseCSP p"
  define csp1 where "csp1 = AList.update ''script-src'' [default_script_src] csp"
  from assms(2) have absent: "map_of csp ''script-src'' = None"
    by (simp add: directive_def csp_def)
  then have c1: "csp1 = csp @ [(''script-src'', [default_script_src])]"
    by (simp add: csp1_def update_absent)
  have m1: "map_of csp1 ''script-src'' = Some [default_script_src]"
    by (simp add: csp1_def update_conv')
  have "cspPatchHMR (Some p) =
          serialize (AList.update ''script-src'' ([default_script_src] @ [unsafe_eval]) csp1)"
    using assms(1) absent m1 unsafe_eval_not_default
    by (simp add: cspPatchHMR_def Let_def foldl_append_directive csp_def [symmetric]
        csp1_def [symmetric])
  also have "\<dots> = serialize (csp @ [(''script-src'', [default_script_src, unsafe_eval])])"
    using absent by (simp add: c1 update_appended)
  also have "\<dots> =
      serialize csp @ ''script-src 'self' 'unsafe-eval' blob: filesystem: 'unsafe-eval';''"
    by (simp only: serialize_append default_directive_text)
  finally show ?thesis by (simp add: csp_def)
qed

theorem patch_without_script_src_witness:
  "cspPatchHMR (Some ''default-src 'none';'') =
     ''default-src 'none';script-src 'self' 'unsafe-eval' blob: filesystem: 'unsafe-eval';''
   \<and> directive
        ''default-src 'none';script-src 'self' 'unsafe-eval' blob: filesystem: 'unsafe-eval';''
        ''script-src''
      = Some [self_src, unsafe_eval, ''blob:'', ''filesystem:'', unsafe_eval]"
proof -
  have h1: "''default-src 'none';'' \<noteq> []" by simp
  have h2: "directive ''default-src 'none';'' ''script-src'' = None" by code_simp
  have s: "serialize (parseCSP ''default-src 'none';'') = ''default-src 'none';''" by code_simp
  have d: "directive
        ''default-src 'none';script-src 'self' 'unsafe-eval' blob: filesystem: 'unsafe-eval';''
        ''script-src''
      = Some [self_src, unsafe_eval, ''blob:'', ''filesystem:'', unsafe_eval]"
    by code_simp
  show ?thesis
    using patch_without_script_src [OF h1 h2] d by (simp add: s)
qed

text \<open>
  C5. For every manifest of version 2 that has no \<^verbatim>\<open>content_security_policy\<close>
  field, whenever the walk with hot reload enabled returns, the
  \<^verbatim>\<open>content_security_policy\<close> of the document it returns is exactly the fixed default
  policy.
\<close>

theorem mv2_hot_default_policy:
  assumes "collectDependencies h a program ptrs True = Inr (program', a')"
      and "map_of program ''manifest_version'' = Some (JNum 2)"
      and "map_of program ''content_security_policy'' = None"
  shows "map_of program' ''content_security_policy'' =
           Some (JStr ''script-src 'self' 'unsafe-eval' blob: filesystem:;object-src 'self' blob: filesystem:;'')"
proof -
  from assms(1) obtain isMV2 a1 program2 a2 needRuntimeBG program3 a3 program4 a4 program5 a5
      program6 a6
    where v: "isMV2_of program = Inr isMV2"
      and s2: "collect_content_scripts h ptrs True program a1 = Inr (program2, a2, needRuntimeBG)"
      and s3: "collect_dictionaries h ptrs program2 a2 = Inr (program3, a3)"
      and s4: "collect_theme_icons h ptrs isMV2 program3 a3 = Inr (program4, a4)"
      and s5: "collect_web_accessible_resources h ptrs isMV2 program4 a4 = Inr (program5, a5)"
      and s6: "collect_dep_locs h ptrs program5 a5 = Inr (program6, a6)"
      and s7: "collect_background h isMV2 True needRuntimeBG program6 a6 = Inr (program', a')"
    by (rule collectDependencies_InrE)
  from v assms(2) have mv2: "isMV2" by (simp add: isMV2_of_def)
  have "map_of program2 ''content_security_policy'' = None"
    using content_scripts_frame [OF s2, of "''content_security_policy''"] assms(3) by simp
  then have "map_of program3 ''content_security_policy'' = None"
    using dictionaries_frame [OF s3, of "''content_security_policy''"] by simp
  then have "map_of program4 ''content_security_policy'' = None"
    using theme_icons_frame [OF s4, of "''content_security_policy''"]
    by (simp add: browserActionName_def)
  then have "map_of program5 ''content_security_policy'' = None"
    using web_accessible_resources_frame [OF s5, of "''content_security_policy''"] by simp
  then have absent: "map_of program6 ''content_security_policy'' = None"
    using dep_locs_frame [OF s6, of "''content_security_policy''"] by (simp add: DEP_LOCS_def)
  define program1 where
    "program1 = AList.update ''content_security_policy'' (JStr default_policy) program6"
  have p1: "map_of program1 ''content_security_policy'' = Some (JStr default_policy)"
    by (simp add: program1_def update_conv')
  show ?thesis
  proof (cases needRuntimeBG)
    case False
    with s7 mv2 absent have "program' = program1"
      by (simp add: collect_background_def collect_background_mv2_def string_property_def
          cspPatchHMR_def program1_def)
    with p1 show ?thesis by (simp add: default_policy_text)
  next
    case True
    with s7 mv2 absent have "push_background_script h program1 a6 = Inr (program', a')"
      by (simp add: collect_background_def collect_background_mv2_def string_property_def
          cspPatchHMR_def program1_def)
    from push_background_script_frame [OF this, of "''content_security_policy''"] p1
    show ?thesis by (simp add: default_policy_text)
  qed
qed

theorem mv2_hot_default_policy_witness:
  "\<exists>program' a'.
     collectDependencies example_host example_asset mv2_manifest mv2_pointers True
       = Inr (program', a')
     \<and> map_of program' ''content_security_policy'' =
         Some (JStr ''script-src 'self' 'unsafe-eval' blob: filesystem:;object-src 'self' blob: filesystem:;'')"
proof -
  have run: "collectDependencies example_host example_asset mv2_manifest mv2_pointers True =
      Inr ([(''manifest_version'', JNum 2),
            (''name'', JStr ''example''),
            (''content_scripts'',
               JArr [JObj [(''matches'', JArr [JStr ''<all_urls>'']),
                           (''js'', JArr [JStr ''dep:a.js'', JStr ''dep:./runtime/autoreload.js''])]]),
            (''content_security_policy'', JStr default_policy),
            (''background'', JObj [(''scripts'', JArr [JStr ''dep:./runtime/autoreload-bg.js''])])],
           example_asset\<lparr>dependencies :=
             [content_script_dep ''/ext/manifest.json'' mv2_pointers 0 ''js'' 0 ''a.js'',
              autoreload_dep example_host, autoreload_bg_dep example_host None]\<rparr>)"
    by code_simp
  have v: "map_of mv2_manifest ''manifest_version'' = Some (JNum 2)"
    by (simp add: mv2_manifest_def)
  have c: "map_of mv2_manifest ''content_security_policy'' = None"
    by (simp add: mv2_manifest_def)
  show ?thesis
    using mv2_hot_default_policy [OF run v c] run by blast
qed

text \<open>
  C8. For every asset whose pipeline tag is \<^verbatim>\<open>mv3-bg-sw\<close> the transformer returns
  the asset with its code replaced by the template of lines 325 to 330: the bundled
  background snippet inside an immediately invoked function expression, then the
  original code. The result does not depend on the parser, on the schema check or on
  the dependency tokens, the asset's dependencies are the ones it had, and the output
  is no JSON text: its first visible character is an opening parenthesis.
\<close>

theorem wrapper_mode:
  assumes "asset_pipeline a = Some ''mv3-bg-sw''"
  shows "transform h a hot =
           Inr (a\<lparr>code :=
                  newline @ ''        (function() {''
                  @ newline @ ''          '' @ AUTORELOAD_BG h
                  @ newline @ ''        })();''
                  @ newline @ ''        '' @ code a
                  @ newline @ ''      ''\<rparr>)
         \<and> transform (h\<lparr>jsm_parse := parse, validateSchema := validate, token := tok\<rparr>) a hot
             = transform h a hot
         \<and> (\<exists>a'. transform h a hot = Inr a' \<and> dependencies a' = dependencies a
                \<and> first_visible (code a') = Some (CHR ''('')
                \<and> \<not> json_start (CHR ''(''))"
proof -
  have t: "transform h' a hot =
             Inr (a\<lparr>code := service_worker_wrapper (AUTORELOAD_BG h') (code a)\<rparr>)"
    for h'
    using assms by (simp add: transform_def)
  have "\<not> json_start (CHR ''('')"
    by (simp add: json_start_def)
  then show ?thesis
    unfolding t by (simp add: wrapper_first_visible) (simp add: service_worker_wrapper_def)
qed

theorem wrapper_mode_witness:
  "transform example_host
     (example_asset\<lparr>code := ''main()'', asset_pipeline := Some ''mv3-bg-sw''\<rparr>) False
   = Inr (example_asset
       \<lparr>code := newline @ ''        (function() {''
                @ newline @ ''          reload()''
                @ newline @ ''        })();''
                @ newline @ ''        main()''
                @ newline @ ''      '',
        asset_pipeline := Some ''mv3-bg-sw''\<rparr>)"
  using wrapper_mode
    [of "example_asset\<lparr>code := ''main()'', asset_pipeline := Some ''mv3-bg-sw''\<rparr>"
        example_host False]
  by (simp add: example_host_def example_asset_def)


text \<open>
  C1. For every manifest whose \<^verbatim>\<open>default_locale\<close> is set (a string that is not empty)
  and whose version is a number or absent: if the directory \<^verbatim>\<open>_locales\<close> next to the
  manifest does not exist, the walk fails with a diagnostic pinned to the key of
  \<^verbatim>\<open>default_locale\<close>; if it exists but has no entry named after the locale, the walk
  fails with a diagnostic pinned to the value, and the two locations differ; if both
  exist, the localization step registers, after the dependencies the asset had, one
  dependency \<^verbatim>\<open>_locales/<locale>/messages.json\<close> per entry of \<^verbatim>\<open>_locales\<close>, with
  \<^verbatim>\<open>needsStableName\<close> true and pipeline \<^verbatim>\<open>raw\<close>, and whenever the whole walk returns
  these are followed only by dependencies of another pipeline.
\<close>

theorem default_locale_check:
  assumes dl: "map_of program ''default_locale'' = Some (JStr default_locale)"
      and ne: "default_locale \<noteq> []"
      and v: "isMV2_of program = Inr isMV2"
      and l: "locales = path_join h (path_dirname h (filePath a)) ''_locales''"
  shows "(\<not> fs_exists h locales \<longrightarrow>
            (\<exists>d. collectDependencies h a program ptrs hot = Inl (ThrowableDiagnostic d)
               \<and> highlight d = getJSONSourceLocation (ptrs ''/default_locale'') KeyPart
               \<and> frame_filePath d = filePath a))
       \<and> (fs_exists h locales \<and> \<not> fs_exists h (path_join h locales default_locale) \<longrightarrow>
            (\<exists>d. collectDependencies h a program ptrs hot = Inl (ThrowableDiagnostic d)
               \<and> highlight d = getJSONSourceLocation (ptrs ''/default_locale'') ValuePart
               \<and> frame_filePath d = filePath a))
       \<and> getJSONSourceLocation (ptrs ''/default_locale'') KeyPart
           \<noteq> getJSONSourceLocation (ptrs ''/default_locale'') ValuePart
       \<and> (fs_exists h locales \<and> fs_exists h (path_join h locales default_locale)
            \<and> fs_readdir h locales = Some entries \<longrightarrow>
            collect_default_locale h ptrs program a =
              Inr (a\<lparr>dependencies := dependencies a
                     @ map (\<lambda>locale.
                         \<lparr>specifier = ''_locales/'' @ locale @ ''/messages.json'',
                          needsStableName = Some True, pipeline = Some ''raw'', loc = None,
                          resolveFrom = None, env = None\<rparr>) entries\<rparr>)
            \<and> (\<forall>program' a'. collectDependencies h a program ptrs hot = Inr (program', a') \<longrightarrow>
                 (\<exists>rest. dependencies a' =
                     dependencies a
                     @ map (\<lambda>locale.
                         \<lparr>specifier = ''_locales/'' @ locale @ ''/messages.json'',
                          needsStableName = Some True, pipeline = Some ''raw'', loc = None,
                          resolveFrom = None, env = None\<rparr>) entries
                     @ rest
                   \<and> list_all (\<lambda>d. pipeline d \<noteq> Some ''raw'') rest)))"
proof -
  have key: "\<not> fs_exists h locales \<Longrightarrow>
      collect_default_locale h ptrs program a =
        Inl (ThrowableDiagnostic (locale_diagnostic h (filePath a) ptrs KeyPart default_locale locales))"
    using dl ne l by (simp add: collect_default_locale_def Let_def)
  have val: "fs_exists h locales \<Longrightarrow> \<not> fs_exists h (path_join h locales default_locale) \<Longrightarrow>
      collect_default_locale h ptrs program a =
        Inl (ThrowableDiagnostic (locale_diagnostic h (filePath a) ptrs ValuePart default_locale locales))"
    using dl ne l by (simp add: collect_default_locale_def Let_def)
  have dep: "locale_dep = (\<lambda>locale.
        \<lparr>specifier = ''_locales/'' @ locale @ ''/messages.json'',
         needsStableName = Some True, pipeline = Some ''raw'', loc = None,
         resolveFrom = None, env = None\<rparr>)"
    by (rule ext) (simp add: locale_dep_def stable_dep_def)
  have ok: "fs_exists h locales \<Longrightarrow> fs_exists h (path_join h locales default_locale) \<Longrightarrow>
      fs_readdir h locales = Some entries \<Longrightarrow>
      collect_default_locale h ptrs program a =
        Inr (a\<lparr>dependencies := dependencies a @ map locale_dep entries\<rparr>)"
    using dl ne l by (simp add: collect_default_locale_def Let_def foldl_add_locales)
  have whole: "\<exists>rest. dependencies a' = dependencies a @ map locale_dep entries @ rest
        \<and> list_all (\<lambda>d. pipeline d \<noteq> Some ''raw'') rest"
    if "collect_default_locale h ptrs program a =
          Inr (a\<lparr>dependencies := dependencies a @ map locale_dep entries\<rparr>)"
      and "collectDependencies h a program ptrs hot = Inr (program', a')"
    for program' a'
  proof -
    from that(2) obtain a1 where "collect_default_locale h ptrs program a = Inr a1"
      and "extends_by not_raw a1 a'"
      by (rule collectDependencies_extends)
    with that(1) show ?thesis
      by (auto simp: extends_by_def not_raw_def [abs_def])
  qed
  show ?thesis
    using key val ok whole collectDependencies_locale_failure [OF v, of h ptrs a _ hot]
    by (auto simp: locale_diagnostic_def getJSONSourceLocation_def dep)
qed

theorem default_locale_check_witness:
  "(\<exists>d. collectDependencies host_without_locales example_asset
           locale_manifest locale_pointers False = Inl (ThrowableDiagnostic d)
      \<and> highlight d = getJSONSourceLocation (locale_pointers ''/default_locale'') KeyPart)
   \<and> (\<exists>d. collectDependencies host_without_en
           example_asset locale_manifest locale_pointers False = Inl (ThrowableDiagnostic d)
      \<and> highlight d = getJSONSourceLocation (locale_pointers ''/default_locale'') ValuePart)
   \<and> collect_default_locale example_host locale_pointers locale_manifest example_asset
       = Inr (example_asset\<lparr>dependencies :=
                [\<lparr>specifier = ''_locales/en/messages.json'',
                  needsStableName = Some True, pipeline = Some ''raw'', loc = None,
                  resolveFrom = None, env = None\<rparr>,
                 \<lparr>specifier = ''_locales/de/messages.json'',
                  needsStableName = Some True, pipeline = Some ''raw'', loc = None,
                  resolveFrom = None, env = None\<rparr>]\<rparr>)"
proof -
  have dl: "map_of locale_manifest ''default_locale'' = Some (JStr ''en'')"
    by (simp add: locale_manifest_def)
  have ne: "''en'' \<noteq> []" by simp
  have v: "isMV2_of locale_manifest = Inr False"
    by (simp add: isMV2_of_def locale_manifest_def)
  have l1: "''/ext/_locales'' =
      path_join host_without_locales
        (path_dirname host_without_locales (filePath example_asset)) ''_locales''"
    by (simp add: host_without_locales_def example_host_def)
  have l2: "''/ext/_locales'' =
      path_join host_without_en (path_dirname host_without_en (filePath example_asset)) ''_locales''"
    by (simp add: host_without_en_def example_host_def)
  have l3: "''/ext/_locales'' =
      path_join example_host (path_dirname example_host (filePath example_asset)) ''_locales''"
    by (simp add: example_host_def)
  have e1: "\<not> fs_exists host_without_locales ''/ext/_locales''"
    by (simp add: host_without_locales_def example_host_def)
  have e2: "fs_exists host_without_en ''/ext/_locales''
      \<and> \<not> fs_exists host_without_en (path_join host_without_en ''/ext/_locales'' ''en'')"
    by (simp add: host_without_en_def example_host_def)
  have e3: "fs_exists example_host ''/ext/_locales''
      \<and> fs_exists example_host (path_join example_host ''/ext/_locales'' ''en'')
      \<and> fs_readdir example_host ''/ext/_locales'' = Some [''en'', ''de'']"
    by (simp add: example_host_def)
  have w1: "\<exists>d. collectDependencies host_without_locales example_asset
           locale_manifest locale_pointers False = Inl (ThrowableDiagnostic d)
      \<and> highlight d = getJSONSourceLocation (locale_pointers ''/default_locale'') KeyPart"
    using default_locale_check [OF dl ne v l1, of locale_pointers False "[]"] e1 by blast
  have w2: "\<exists>d. collectDependencies host_without_en example_asset
           locale_manifest locale_pointers False = Inl (ThrowableDiagnostic d)
      \<and> highlight d = getJSONSourceLocation (locale_pointers ''/default_locale'') ValuePart"
    using default_locale_check [OF dl ne v l2, of locale_pointers False "[]"] e2 by blast
  have w3: "collect_default_locale example_host locale_pointers locale_manifest example_asset
       = Inr (example_asset\<lparr>dependencies := dependencies example_asset @
                map (\<lambda>locale.
                  \<lparr>specifier = ''_locales/'' @ locale @ ''/messages.json'',
                   needsStableName = Some True, pipeline = Some ''raw'', loc = None,
                   resolveFrom = None, env = None\<rparr>) [''en'', ''de'']\<rparr>)"
    using default_locale_check [OF dl ne v l3, of locale_pointers False "[''en'', ''de'']"] e3
    by blast
  from w1 w2 w3 show ?thesis by (simp add: example_asset_def)
qed




text \<open>
  C6. Whenever the walk returns, every entry \<open>i\<close> of \<^verbatim>\<open>content_scripts\<close> is an object
  whose \<^verbatim>\<open>css\<close> and \<^verbatim>\<open>js\<close>, where present, are arrays of strings; in the returned
  document the entry has every such path replaced by the token of a dependency with
  \<^verbatim>\<open>needsStableName\<close> true and the source location of the value at
  \<^verbatim>\<open>/content_scripts/i/k/j\<close>; exactly when hot reload is active and the entry has at
  least one \<^verbatim>\<open>js\<close> file, the token of one more dependency, on
  \<^verbatim>\<open>./runtime/autoreload.js\<close>, is appended to its \<^verbatim>\<open>js\<close> list. These dependencies
  are in the returned asset, next to one another and in this order. The flag
  \<^verbatim>\<open>needRuntimeBG\<close> that step 2 returns and that the last step of the walk is run with is
  set exactly when hot reload is active and some entry has a \<^verbatim>\<open>js\<close> file.
\<close>

theorem content_scripts_rewritten:
  assumes run: "collectDependencies h a program ptrs hot = Inr (program', a')"
      and cs: "map_of program ''content_scripts'' = Some (JArr scs)"
      and i: "i < length scs"
  shows "\<exists>sc css js before after.
            scs ! i = JObj sc
          \<and> map_of sc ''css'' = map_option (\<lambda>us. JArr (map JStr us)) css
          \<and> map_of sc ''js'' = map_option (\<lambda>us. JArr (map JStr us)) js
          \<and> get_path (JObj program') [Key ''content_scripts'', Index i] =
              Some (JObj (set_tokens h ''js'' js
                            (asset_deps (filePath a) ptrs i ''js'' js @ reload_deps h hot js)
                            (set_tokens h ''css'' css
                               (asset_deps (filePath a) ptrs i ''css'' css) sc)))
          \<and> dependencies a' =
              dependencies a @ before
              @ asset_deps (filePath a) ptrs i ''css'' css
              @ asset_deps (filePath a) ptrs i ''js'' js
              @ reload_deps h hot js
              @ after
          \<and> (\<exists>isMV2 a1 program2 a2 program6 a6.
                isMV2_of program = Inr isMV2
              \<and> collect_default_locale h ptrs program a = Inr a1
              \<and> collect_content_scripts h ptrs hot program a1
                  = Inr (program2, a2, hot \<and> list_ex declares_js scs)
              \<and> collect_background h isMV2 hot (hot \<and> list_ex declares_js scs) program6 a6
                  = Inr (program', a'))"
proof -
  from run obtain isMV2 a1 program2 a2 needRuntimeBG program3 a3 program4 a4 program5 a5
      program6 a6
    where v: "isMV2_of program = Inr isMV2"
      and s1: "collect_default_locale h ptrs program a = Inr a1"
      and s2: "collect_content_scripts h ptrs hot program a1 = Inr (program2, a2, needRuntimeBG)"
      and s3: "collect_dictionaries h ptrs program2 a2 = Inr (program3, a3)"
      and s4: "collect_theme_icons h ptrs isMV2 program3 a3 = Inr (program4, a4)"
      and s5: "collect_web_accessible_resources h ptrs isMV2 program4 a4 = Inr (program5, a5)"
      and s6: "collect_dep_locs h ptrs program5 a5 = Inr (program6, a6)"
      and s7: "collect_background h isMV2 hot needRuntimeBG program6 a6 = Inr (program', a')"
    by (rule collectDependencies_InrE)
  from default_locale_extends [OF s1] obtain locales where
    a1: "a1 = a\<lparr>dependencies := dependencies a @ locales\<rparr>" by blast
  then have fp: "filePath a1 = filePath a" by simp
  from content_scripts_step [OF s2 cs i] obtain sc css js before2 after2 where
    sc: "scs ! i = JObj sc"
    and css: "map_of sc ''css'' = map_option (\<lambda>us. JArr (map JStr us)) css"
    and js: "map_of sc ''js'' = map_option (\<lambda>us. JArr (map JStr us)) js"
    and entry: "get_path (JObj program2) [Key ''content_scripts'', Index i] =
              Some (JObj (set_tokens h ''js'' js
                            (asset_deps (filePath a) ptrs i ''js'' js @ reload_deps h hot js)
                            (set_tokens h ''css'' css
                               (asset_deps (filePath a) ptrs i ''css'' css) sc)))"
    and deps2: "dependencies a2 =
              dependencies a1 @ before2
              @ asset_deps (filePath a) ptrs i ''css'' css
              @ asset_deps (filePath a) ptrs i ''js'' js
              @ reload_deps h hot js
              @ after2"
    and flag: "needRuntimeBG = (hot \<and> list_ex declares_js scs)"
    unfolding fp by blast
  from dictionaries_extends [OF s3] obtain d3 where
    a3: "a3 = a2\<lparr>dependencies := dependencies a2 @ d3\<rparr>"
    by (auto simp: extends_by_def)
  from later_steps_extend [OF s4 s5 s6 s7] obtain d7 where
    a': "a' = a3\<lparr>dependencies := dependencies a3 @ d7\<rparr>" by blast
  have deps: "dependencies a' =
      dependencies a @ (locales @ before2)
      @ asset_deps (filePath a) ptrs i ''css'' css
      @ asset_deps (filePath a) ptrs i ''js'' js
      @ reload_deps h hot js
      @ (after2 @ d3 @ d7)"
    by (simp add: a' a3 deps2 a1)
  have "map_of program' ''content_scripts'' = map_of program3 ''content_scripts''"
    using later_steps_frame [OF s4 s5 s6 s7, of "''content_scripts''"] by simp
  also have "\<dots> = map_of program2 ''content_scripts''"
    using dictionaries_frame [OF s3, of "''content_scripts''"] by simp
  finally have "get_path (JObj program') [Key ''content_scripts'', Index i]
      = get_path (JObj program2) [Key ''content_scripts'', Index i]"
    by simp
  with entry have entry': "get_path (JObj program') [Key ''content_scripts'', Index i] =
              Some (JObj (set_tokens h ''js'' js
                            (asset_deps (filePath a) ptrs i ''js'' js @ reload_deps h hot js)
                            (set_tokens h ''css'' css
                               (asset_deps (filePath a) ptrs i ''css'' css) sc)))"
    by simp
  from v s1 s2 s7 flag have last: "\<exists>isMV2 a1 program2 a2 program6 a6.
                isMV2_of program = Inr isMV2
              \<and> collect_default_locale h ptrs program a = Inr a1
              \<and> collect_content_scripts h ptrs hot program a1
                  = Inr (program2, a2, hot \<and> list_ex declares_js scs)
              \<and> collect_background h isMV2 hot (hot \<and> list_ex declares_js scs) program6 a6
                  = Inr (program', a')"
    by blast
  from sc css js entry' deps last show ?thesis by blast
qed

theorem content_scripts_rewritten_witness:
  "collectDependencies example_host example_asset scripts_manifest scripts_pointers True =
      Inr ([(''manifest_version'', JNum 3),
           (''content_scripts'',
              JArr [JObj [(''css'', JArr [JStr ''dep:a.css'']),
                          (''js'', JArr [JStr ''dep:a.js'', JStr ''dep:b.js'',
                                         JStr ''dep:./runtime/autoreload.js''])],
                    JObj [(''css'', JArr [JStr ''dep:only.css''])]]),
           (''background'', JObj [(''service_worker'', JStr ''dep:./runtime/autoreload-bg.js'')])],
          example_asset\<lparr>dependencies :=
            asset_deps ''/ext/manifest.json'' scripts_pointers 0 ''css'' (Some [''a.css''])
            @ asset_deps ''/ext/manifest.json'' scripts_pointers 0 ''js'' (Some [''a.js'', ''b.js''])
            @ reload_deps example_host True (Some [''a.js'', ''b.js''])
            @ asset_deps ''/ext/manifest.json'' scripts_pointers 1 ''css'' (Some [''only.css''])
            @ [autoreload_bg_dep example_host
                 (Some \<lparr>env_context = ''service-worker'', sourceType = None\<rparr>)]\<rparr>)
   \<and> (\<exists>sc css js before after.
          [JObj [(''css'', JArr [JStr ''a.css'']), (''js'', JArr [JStr ''a.js'', JStr ''b.js''])],
           JObj [(''css'', JArr [JStr ''only.css''])]] ! 0 = JObj sc
        \<and> map_of sc ''css'' = map_option (\<lambda>us. JArr (map JStr us)) css
        \<and> map_of sc ''js'' = map_option (\<lambda>us. JArr (map JStr us)) js
        \<and> Some (JObj [(''css'', JArr [JStr ''dep:a.css'']),
                       (''js'', JArr [JStr ''dep:a.js'', JStr ''dep:b.js'',
                                      JStr ''dep:./runtime/autoreload.js''])]) =
            Some (JObj (set_tokens example_host ''js'' js
                          (asset_deps ''/ext/manifest.json'' scripts_pointers 0 ''js'' js
                           @ reload_deps example_host True js)
                          (set_tokens example_host ''css'' css
                             (asset_deps ''/ext/manifest.json'' scripts_pointers 0 ''css'' css) sc)))
        \<and> asset_deps ''/ext/manifest.json'' scripts_pointers 0 ''css'' (Some [''a.css''])
            @ asset_deps ''/ext/manifest.json'' scripts_pointers 0 ''js'' (Some [''a.js'', ''b.js''])
            @ reload_deps example_host True (Some [''a.js'', ''b.js''])
            @ asset_deps ''/ext/manifest.json'' scripts_pointers 1 ''css'' (Some [''only.css''])
            @ [autoreload_bg_dep example_host
                 (Some \<lparr>env_context = ''service-worker'', sourceType = None\<rparr>)]
          = before
            @ asset_deps ''/ext/manifest.json'' scripts_pointers 0 ''css'' css
            @ asset_deps ''/ext/manifest.json'' scripts_pointers 0 ''js'' js
            @ reload_deps example_host True js
            @ after)"
proof -
  have run: "collectDependencies example_host example_asset scripts_manifest scripts_pointers True =
      Inr ([(''manifest_version'', JNum 3),
           (''content_scripts'',
              JArr [JObj [(''css'', JArr [JStr ''dep:a.css'']),
                          (''js'', JArr [JStr ''dep:a.js'', JStr ''dep:b.js'',
                                         JStr ''dep:./runtime/autoreload.js''])],
                    JObj [(''css'', JArr [JStr ''dep:only.css''])]]),
           (''background'', JObj [(''service_worker'', JStr ''dep:./runtime/autoreload-bg.js'')])],
          example_asset\<lparr>dependencies :=
            asset_deps ''/ext/manifest.json'' scripts_pointers 0 ''css'' (Some [''a.css''])
            @ asset_deps ''/ext/manifest.json'' scripts_pointers 0 ''js'' (Some [''a.js'', ''b.js''])
            @ reload_deps example_host True (Some [''a.js'', ''b.js''])
            @ asset_deps ''/ext/manifest.json'' scripts_pointers 1 ''css'' (Some [''only.css''])
            @ [autoreload_bg_dep example_host
                 (Some \<lparr>env_context = ''service-worker'', sourceType = None\<rparr>)]\<rparr>)"
    by code_simp
  have cs: "map_of scripts_manifest ''content_scripts'' =
      Some (JArr [JObj [(''css'', JArr [JStr ''a.css'']), (''js'', JArr [JStr ''a.js'', JStr ''b.js''])],
                  JObj [(''css'', JArr [JStr ''only.css''])]])"
    by (simp add: scripts_manifest_def)
  have i: "(0::nat) < length
      [JObj [(''css'', JArr [JStr ''a.css'']), (''js'', JArr [JStr ''a.js'', JStr ''b.js''])],
       JObj [(''css'', JArr [JStr ''only.css''])]]"
    by simp
  from content_scripts_rewritten [OF run cs i]
  obtain sc css js before after where
    "[JObj [(''css'', JArr [JStr ''a.css'']), (''js'', JArr [JStr ''a.js'', JStr ''b.js''])],
           JObj [(''css'', JArr [JStr ''only.css''])]] ! 0 = JObj sc"
    "map_of sc ''css'' = map_option (\<lambda>us. JArr (map JStr us)) css"
    "map_of sc ''js'' = map_option (\<lambda>us. JArr (map JStr us)) js"
    "get_path (JObj [(''manifest_version'', JNum 3),
           (''content_scripts'',
              JArr [JObj [(''css'', JArr [JStr ''dep:a.css'']),
                          (''js'', JArr [JStr ''dep:a.js'', JStr ''dep:b.js'',
                                         JStr ''dep:./runtime/autoreload.js''])],
                    JObj [(''css'', JArr [JStr ''dep:only.css''])]]),
           (''background'', JObj [(''service_worker'', JStr ''dep:./runtime/autoreload-bg.js'')])])
        [Key ''content_scripts'', Index 0] =
            Some (JObj (set_tokens example_host ''js'' js
                          (asset_deps (filePath example_asset) scripts_pointers 0 ''js'' js
                           @ reload_deps example_host True js)
                          (set_tokens example_host ''css'' css
                             (asset_deps (filePath example_asset) scripts_pointers 0 ''css'' css) sc)))"
    "dependencies (example_asset\<lparr>dependencies :=
            asset_deps ''/ext/manifest.json'' scripts_pointers 0 ''css'' (Some [''a.css''])
            @ asset_deps ''/ext/manifest.json'' scripts_pointers 0 ''js'' (Some [''a.js'', ''b.js''])
            @ reload_deps example_host True (Some [''a.js'', ''b.js''])
            @ asset_deps ''/ext/manifest.json'' scripts_pointers 1 ''css'' (Some [''only.css''])
            @ [autoreload_bg_dep example_host
                 (Some \<lparr>env_context = ''service-worker'', sourceType = None\<rparr>)]\<rparr>)
          = dependencies example_asset @ before
            @ asset_deps (filePath example_asset) scripts_pointers 0 ''css'' css
            @ asset_deps (filePath example_asset) scripts_pointers 0 ''js'' js
            @ reload_deps example_host True js
            @ after"
    by blast
  then have "\<exists>sc css js before after.
          [JObj [(''css'', JArr [JStr ''a.css'']), (''js'', JArr [JStr ''a.js'', JStr ''b.js''])],
           JObj [(''css'', JArr [JStr ''only.css''])]] ! 0 = JObj sc
        \<and> map_of sc ''css'' = map_option (\<lambda>us. JArr (map JStr us)) css
        \<and> map_of sc ''js'' = map_option (\<lambda>us. JArr (map JStr us)) js
        \<and> Some (JObj [(''css'', JArr [JStr ''dep:a.css'']),
                       (''js'', JArr [JStr ''dep:a.js'', JStr ''dep:b.js'',
                                      JStr ''dep:./runtime/autoreload.js''])]) =
            Some (JObj (set_tokens example_host ''js'' js
                          (asset_deps ''/ext/manifest.json'' scripts_pointers 0 ''js'' js
                           @ reload_deps example_host True js)
                          (set_tokens example_host ''css'' css
                             (asset_deps ''/ext/manifest.json'' scripts_pointers 0 ''css'' css) sc)))
        \<and> asset_deps ''/ext/manifest.json'' scripts_pointers 0 ''css'' (Some [''a.css''])
            @ asset_deps ''/ext/manifest.json'' scripts_pointers 0 ''js'' (Some [''a.js'', ''b.js''])
            @ reload_deps example_host True (Some [''a.js'', ''b.js''])
            @ asset_deps ''/ext/manifest.json'' scripts_pointers 1 ''css'' (Some [''only.css''])
            @ [autoreload_bg_dep example_host
                 (Some \<lparr>env_context = ''service-worker'', sourceType = None\<rparr>)]
          = before
            @ asset_deps ''/ext/manifest.json'' scripts_pointers 0 ''css'' css
            @ asset_deps ''/ext/manifest.json'' scripts_pointers 0 ''js'' js
            @ reload_deps example_host True js
            @ after"
    unfolding example_asset_def
    by (intro exI [of _ sc] exI [of _ css] exI [of _ js] exI [of _ before] exI [of _ after])
       simp
  with run show ?thesis by (rule conjI)
qed

text \<open>
  C10, as the code has it. For every path of the table whose pointer is not in the
  index: the pass over the table leaves the value at the path as it was, whatever the
  document, and is the pass over the paths whose pointer is in the index, so it
  registers nothing for the path; and whenever the whole walk returns, the value at the
  path is the one of the input document, unless the path is \<^verbatim>\<open>background/scripts\<close> in
  a version 2 manifest with hot reload active and a content script that has a
  \<^verbatim>\<open>js\<close> file (lines 255 to 267 then append the background script of the
  auto-reload runtime there).
\<close>

theorem fixed_locations_frame:
  assumes run: "collectDependencies h a program ptrs hot = Inr (program', a')"
      and l: "l \<in> set DEP_LOCS"
      and absent: "ptrs (location_of l) = None"
      and exc: "l = [''background'', ''scripts''] \<longrightarrow>
                  \<not> (map_of program ''manifest_version'' = Some (JNum 2) \<and> hot
                     \<and> content_scripts_with_js program)"
  shows "get_path (JObj program') (map Key l) = get_path (JObj program) (map Key l)
       \<and> (\<forall>p0 a0 p1 a1. collect_dep_locs h ptrs p0 a0 = Inr (p1, a1) \<longrightarrow>
             get_path (JObj p1) (map Key l) = get_path (JObj p0) (map Key l))
       \<and> (\<forall>p0 a0. collect_dep_locs h ptrs p0 a0 =
             for_each (dep_loc h ptrs)
               (filter (\<lambda>l. ptrs (location_of l) \<noteq> None) DEP_LOCS) (p0, a0))"
proof (intro conjI allI impI)
  have others: "\<forall>l' \<in> set DEP_LOCS. ptrs (location_of l') \<noteq> None \<longrightarrow> diverge l l'"
  proof (intro ballI impI)
    fix l'
    assume l': "l' \<in> set DEP_LOCS" and present: "ptrs (location_of l') \<noteq> None"
    from DEP_LOCS_diverge l l' have "l = l' \<or> diverge l l'" by blast
    with absent present show "diverge l l'" by auto
  qed
  show pass: "get_path (JObj p1) (map Key l) = get_path (JObj p0) (map Key l)"
    if "collect_dep_locs h ptrs p0 a0 = Inr (p1, a1)" for p0 a0 p1 a1
    using dep_locs_other_path [of h ptrs DEP_LOCS "(p0, a0)" "(p1, a1)" l] that others
    by (simp add: collect_dep_locs_def)
  show "collect_dep_locs h ptrs p0 a0 =
      for_each (dep_loc h ptrs) (filter (\<lambda>l. ptrs (location_of l) \<noteq> None) DEP_LOCS) (p0, a0)"
    for p0 a0
    unfolding collect_dep_locs_def by (rule dep_locs_skip)
  from run obtain isMV2 a1 program2 a2 needRuntimeBG program3 a3 program4 a4 program5 a5
      program6 a6
    where v: "isMV2_of program = Inr isMV2"
      and s2: "collect_content_scripts h ptrs hot program a1 = Inr (program2, a2, needRuntimeBG)"
      and s3: "collect_dictionaries h ptrs program2 a2 = Inr (program3, a3)"
      and s4: "collect_theme_icons h ptrs isMV2 program3 a3 = Inr (program4, a4)"
      and s5: "collect_web_accessible_resources h ptrs isMV2 program4 a4 = Inr (program5, a5)"
      and s6: "collect_dep_locs h ptrs program5 a5 = Inr (program6, a6)"
      and s7: "collect_background h isMV2 hot needRuntimeBG program6 a6 = Inr (program', a')"
    by (rule collectDependencies_InrE)
  from DEP_LOCS_apart l have
    d1: "diverge l [''content_scripts'']" and d2: "diverge l [''dictionaries'']" and
    d3: "diverge l [''web_accessible_resources'']" and
    d4: "diverge l [''content_security_policy'']" and
    d5: "diverge l [browserActionName isMV2, ''theme_icons'']" and
    d6: "diverge l [''background'', ''service_worker'']" and
    d7: "l = [''background'', ''scripts''] \<or> diverge l [''background'', ''scripts'']"
    by (auto simp: browserActionName_def)
  from d1 obtain x xs where lx: "l = x # xs" by (cases l) auto
  have x: "x \<noteq> ''content_scripts''" "x \<noteq> ''dictionaries''" "x \<noteq> ''web_accessible_resources''"
    using d1 d2 d3 by (simp_all add: lx)
  have e2: "get_path (JObj program2) (map Key l) = get_path (JObj program) (map Key l)"
    using content_scripts_frame [OF s2 x(1)] by (simp add: lx)
  have e3: "get_path (JObj program3) (map Key l) = get_path (JObj program2) (map Key l)"
    using dictionaries_frame [OF s3 x(2)] by (simp add: lx)
  have e4: "get_path (JObj program4) (map Key l) = get_path (JObj program3) (map Key l)"
    using s4 d5 by (rule theme_icons_other_path)
  have e5: "get_path (JObj program5) (map Key l) = get_path (JObj program4) (map Key l)"
    using web_accessible_resources_frame [OF s5 x(3)] by (simp add: lx)
  have e6: "get_path (JObj program6) (map Key l) = get_path (JObj program5) (map Key l)"
    using s6 by (rule pass)
  have mv2: "isMV2 \<longleftrightarrow> map_of program ''manifest_version'' = Some (JNum 2)"
    using v by (auto simp: isMV2_of_def split: option.splits json.splits)
  have "diverge l [''background'', ''scripts''] \<or> \<not> (isMV2 \<and> hot \<and> needRuntimeBG)"
    using d7 exc mv2 content_scripts_flag [OF s2] by auto
  with s7 d4 d6
  have e7: "get_path (JObj program') (map Key l) = get_path (JObj program6) (map Key l)"
    by (rule background_other_path)
  from e2 e3 e4 e5 e6 e7
  show "get_path (JObj program') (map Key l) = get_path (JObj program) (map Key l)"
    by simp
qed


theorem fixed_locations_frame_witness:
  "collectDependencies example_host example_asset icons_manifest bare_pointers True =
     Inr ([(''manifest_version'', JNum 2), (''icons'', JObj [(''16'', JStr ''icon16.png'')]),
           (''content_security_policy'', JStr default_policy)],
          example_asset)
   \<and> get_path
        (JObj [(''manifest_version'', JNum 2), (''icons'', JObj [(''16'', JStr ''icon16.png'')]),
               (''content_security_policy'', JStr default_policy)])
        (map Key [''icons''])
      = get_path (JObj icons_manifest) (map Key [''icons''])"
proof -
  have run: "collectDependencies example_host example_asset icons_manifest bare_pointers True =
     Inr ([(''manifest_version'', JNum 2), (''icons'', JObj [(''16'', JStr ''icon16.png'')]),
           (''content_security_policy'', JStr default_policy)],
          example_asset)"
    by code_simp
  have l: "[''icons''] \<in> set DEP_LOCS" by (simp add: DEP_LOCS_def)
  have absent: "bare_pointers (location_of [''icons'']) = None"
    by (simp add: bare_pointers_def pointers_of_def location_of_def)
  have exc: "[''icons''] = [''background'', ''scripts''] \<longrightarrow>
      \<not> (map_of icons_manifest ''manifest_version'' = Some (JNum 2) \<and> True
         \<and> content_scripts_with_js icons_manifest)"
    by simp
  from fixed_locations_frame [OF run l absent exc] run show ?thesis by blast
qed

text \<open>
  The claim C10 as it is written fails on a version 2 manifest with a content script
  and hot reload: the index has no pointer \<^verbatim>\<open>/background/scripts\<close>, the document has
  no value there, and the walk returns a document that has one.
\<close>

theorem fixed_locations_frame_counterexample:
  "[''background'', ''scripts''] \<in> set DEP_LOCS
   \<and> mv2_pointers (location_of [''background'', ''scripts'']) = None
   \<and> get_path (JObj mv2_manifest) (map Key [''background'', ''scripts'']) = None
   \<and> map_sum id (\<lambda>r. get_path (JObj (fst r)) (map Key [''background'', ''scripts'']))
         (collectDependencies example_host example_asset mv2_manifest mv2_pointers True)
       = Inr (Some (JArr [JStr ''dep:./runtime/autoreload-bg.js'']))
   \<and> map_sum id (\<lambda>r. autoreload_bg_dep example_host None \<in> set (dependencies (snd r)))
         (collectDependencies example_host example_asset mv2_manifest mv2_pointers True)
       = Inr True"
proof -
  have run: "collectDependencies example_host example_asset mv2_manifest mv2_pointers True =
      Inr ([(''manifest_version'', JNum 2),
            (''name'', JStr ''example''),
            (''content_scripts'',
               JArr [JObj [(''matches'', JArr [JStr ''<all_urls>'']),
                           (''js'', JArr [JStr ''dep:a.js'', JStr ''dep:./runtime/autoreload.js''])]]),
            (''content_security_policy'', JStr default_policy),
            (''background'', JObj [(''scripts'', JArr [JStr ''dep:./runtime/autoreload-bg.js''])])],
           example_asset\<lparr>dependencies :=
             [content_script_dep ''/ext/manifest.json'' mv2_pointers 0 ''js'' 0 ''a.js'',
              autoreload_dep example_host, autoreload_bg_dep example_host None]\<rparr>)"
    by code_simp
  have "[''background'', ''scripts''] \<in> set DEP_LOCS" by (simp add: DEP_LOCS_def)
  moreover have "mv2_pointers (location_of [''background'', ''scripts'']) = None"
    by (simp add: mv2_pointers_def pointers_of_def location_of_def)
  moreover have "get_path (JObj mv2_manifest) (map Key [''background'', ''scripts'']) = None"
    by (simp add: mv2_manifest_def)
  ultimately show ?thesis unfolding run by simp
qed

text \<open>
  C7. Whenever the walk returns on a manifest of version 3. If \<^verbatim>\<open>background\<close> is an
  object whose \<^verbatim>\<open>service_worker\<close> is declared (a string that is not empty), the
  returned document has in its place the token of the dependency registered last: on
  that path, with \<^verbatim>\<open>needsStableName\<close> true, pipeline \<^verbatim>\<open>mv3-bg-sw\<close> exactly when the
  flag \<^verbatim>\<open>needRuntimeBG\<close> is set (hot reload is active and a content script has a
  \<^verbatim>\<open>js\<close> file) and the empty pipeline otherwise, context \<^verbatim>\<open>service-worker\<close>, and source
  type \<^verbatim>\<open>module\<close> if \<^verbatim>\<open>background.type\<close> is \<^verbatim>\<open>"module"\<close> and \<^verbatim>\<open>script\<close> otherwise.
  If no service worker is declared and the flag is set, \<^verbatim>\<open>background.service_worker\<close>
  of the returned document is the token of a dependency on the bundled script
  \<^verbatim>\<open>./runtime/autoreload-bg.js\<close>, registered last, also when the input had no
  \<^verbatim>\<open>background\<close>.
\<close>

theorem mv3_service_worker:
  assumes run: "collectDependencies h a program ptrs hot = Inr (program', a')"
      and v: "map_of program ''manifest_version'' = Some (JNum 3)"
  shows "(\<forall>background sw.
            map_of program ''background'' = Some (JObj background)
            \<and> map_of background ''service_worker'' = Some (JStr sw) \<and> sw \<noteq> [] \<longrightarrow>
            (\<exists>d before.
               d = \<lparr>specifier = sw, needsStableName = Some True,
                    pipeline = Some (if hot \<and> content_scripts_with_js program
                                     then ''mv3-bg-sw'' else []),
                    loc = None, resolveFrom = None,
                    env = Some \<lparr>env_context = ''service-worker'',
                        sourceType = Some (if map_of background ''type'' = Some (JStr ''module'')
                                           then ''module'' else ''script'')\<rparr>\<rparr>
             \<and> get_path (JObj program') [Key ''background'', Key ''service_worker'']
                 = Some (JStr (token h d))
             \<and> dependencies a' = before @ [d]))
       \<and> (\<forall>background.
            (map_of program ''background'' = Some (JObj background)
               \<or> map_of program ''background'' = None)
            \<and> (map_of program ''background'' = None \<longrightarrow> background = [])
            \<and> (map_of background ''service_worker'' = None
                 \<or> map_of background ''service_worker'' = Some (JStr []))
            \<and> hot \<and> content_scripts_with_js program \<longrightarrow>
            (\<exists>d before.
               d = \<lparr>specifier = ''./runtime/autoreload-bg.js'', needsStableName = None,
                    pipeline = None, loc = None, resolveFrom = Some (module_filename h),
                    env = Some \<lparr>env_context = ''service-worker'', sourceType = None\<rparr>\<rparr>
             \<and> get_path (JObj program') [Key ''background'', Key ''service_worker'']
                 = Some (JStr (token h d))
             \<and> dependencies a' = before @ [d]))"
proof -
  from run obtain isMV2 a1 program2 a2 needRuntimeBG program3 a3 program4 a4 program5 a5
      program6 a6
    where ver: "isMV2_of program = Inr isMV2"
      and s2: "collect_content_scripts h ptrs hot program a1 = Inr (program2, a2, needRuntimeBG)"
      and s3: "collect_dictionaries h ptrs program2 a2 = Inr (program3, a3)"
      and s4: "collect_theme_icons h ptrs isMV2 program3 a3 = Inr (program4, a4)"
      and s5: "collect_web_accessible_resources h ptrs isMV2 program4 a4 = Inr (program5, a5)"
      and s6: "collect_dep_locs h ptrs program5 a5 = Inr (program6, a6)"
      and s7: "collect_background h isMV2 hot needRuntimeBG program6 a6 = Inr (program', a')"
    by (rule collectDependencies_InrE)
  from ver v have mv3: "\<not> isMV2" by (simp add: isMV2_of_def)
  note flag = content_scripts_flag [OF s2]
  from s7 mv3 have last: "collect_background_mv3 h needRuntimeBG program6 a6 = Inr (program', a')"
    by (simp add: collect_background_def)
  note bg6 = background_before_last_step [OF s2 s3 s4 [unfolded mv3 [THEN eq_False [THEN iffD2]]]
      s5 [unfolded mv3 [THEN eq_False [THEN iffD2]]] s6]
  show ?thesis
  proof (intro conjI allI impI)
    fix background sw
    assume "map_of program ''background'' = Some (JObj background)
        \<and> map_of background ''service_worker'' = Some (JStr sw) \<and> sw \<noteq> []"
    then have b: "map_of program ''background'' = Some (JObj background)"
      and sw: "map_of background ''service_worker'' = Some (JStr sw)" "sw \<noteq> []"
      by simp_all
    from bg6 b obtain background6 where
      b6: "map_of program6 ''background'' = Some (JObj background6)"
      and sw6: "map_of background6 ''service_worker'' = map_of background ''service_worker''"
      and ty6: "map_of background6 ''type'' = map_of background ''type''"
      by blast
    from service_worker_declared [OF b6 _ sw(2) last] sw(1) sw6
    have p': "program' = AList.update ''background''
           (JObj (AList.update ''service_worker''
              (JStr (token h (service_worker_dep needRuntimeBG
                       (map_of background6 ''type'' = Some (JStr ''module'')) sw)))
              background6)) program6"
      and a': "a' = a6\<lparr>dependencies := dependencies a6
              @ [service_worker_dep needRuntimeBG
                   (map_of background6 ''type'' = Some (JStr ''module'')) sw]\<rparr>"
      by simp_all
    have d: "service_worker_dep needRuntimeBG (map_of background6 ''type'' = Some (JStr ''module'')) sw
        = \<lparr>specifier = sw, needsStableName = Some True,
           pipeline = Some (if hot \<and> content_scripts_with_js program then ''mv3-bg-sw'' else []),
           loc = None, resolveFrom = None,
           env = Some \<lparr>env_context = ''service-worker'',
               sourceType = Some (if map_of background ''type'' = Some (JStr ''module'')
                                  then ''module'' else ''script'')\<rparr>\<rparr>"
      by (simp add: service_worker_dep_def flag ty6)
    show "\<exists>d before.
        d = \<lparr>specifier = sw, needsStableName = Some True,
             pipeline = Some (if hot \<and> content_scripts_with_js program then ''mv3-bg-sw'' else []),
             loc = None, resolveFrom = None,
             env = Some \<lparr>env_context = ''service-worker'',
                 sourceType = Some (if map_of background ''type'' = Some (JStr ''module'')
                                    then ''module'' else ''script'')\<rparr>\<rparr>
        \<and> get_path (JObj program') [Key ''background'', Key ''service_worker'']
            = Some (JStr (token h d))
        \<and> dependencies a' = before @ [d]"
      unfolding d [symmetric] by (simp add: p' a' update_conv')
  next
    fix background
    assume "(map_of program ''background'' = Some (JObj background)
               \<or> map_of program ''background'' = None)
        \<and> (map_of program ''background'' = None \<longrightarrow> background = [])
        \<and> (map_of background ''service_worker'' = None
             \<or> map_of background ''service_worker'' = Some (JStr []))
        \<and> hot \<and> content_scripts_with_js program"
    then have b: "map_of program ''background'' = Some (JObj background)
               \<or> (map_of program ''background'' = None \<and> background = [])"
      and sw: "map_of background ''service_worker'' = None
             \<or> map_of background ''service_worker'' = Some (JStr [])"
      and fl: "needRuntimeBG"
      using flag by auto
    from b bg6 obtain background6 where
      b6: "map_of program6 ''background'' = Some (JObj background6)
             \<or> (map_of program6 ''background'' = None \<and> background6 = [])"
      and sw6: "map_of background6 ''service_worker'' = map_of background ''service_worker''"
      by auto
    from sw sw6 have sw6': "map_of background6 ''service_worker'' = None
             \<or> map_of background6 ''service_worker'' = Some (JStr [])"
      by simp
    from service_worker_synthesized [OF b6 sw6', of h a6] last fl
    have p': "program' = AList.update ''background''
            (JObj (AList.update ''service_worker''
               (JStr (token h (autoreload_bg_dep h
                  (Some \<lparr>env_context = ''service-worker'', sourceType = None\<rparr>))))
               background6)) program6"
      and a': "a' = a6\<lparr>dependencies := dependencies a6
             @ [autoreload_bg_dep h (Some \<lparr>env_context = ''service-worker'', sourceType = None\<rparr>)]\<rparr>"
      by simp_all
    show "\<exists>d before.
        d = \<lparr>specifier = ''./runtime/autoreload-bg.js'', needsStableName = None,
             pipeline = None, loc = None, resolveFrom = Some (module_filename h),
             env = Some \<lparr>env_context = ''service-worker'', sourceType = None\<rparr>\<rparr>
        \<and> get_path (JObj program') [Key ''background'', Key ''service_worker'']
            = Some (JStr (token h d))
        \<and> dependencies a' = before @ [d]"
      by (simp add: p' a' update_conv' autoreload_bg_dep_def)
  qed
qed


theorem mv3_service_worker_witness:
  "(\<exists>program' a' before.
      collectDependencies example_host example_asset worker_manifest worker_pointers True
        = Inr (program', a')
      \<and> get_path (JObj program') [Key ''background'', Key ''service_worker'']
          = Some (JStr ''dep:bg.js'')
      \<and> dependencies a' = before @
          [\<lparr>specifier = ''bg.js'', needsStableName = Some True, pipeline = Some ''mv3-bg-sw'',
            loc = None, resolveFrom = None,
            env = Some \<lparr>env_context = ''service-worker'', sourceType = Some ''module''\<rparr>\<rparr>])
   \<and> (\<exists>program' a'.
      collectDependencies example_host example_asset scripts_manifest scripts_pointers True
        = Inr (program', a')
      \<and> get_path (JObj program') [Key ''background'', Key ''service_worker'']
          = Some (JStr ''dep:./runtime/autoreload-bg.js''))"
proof -
  have run1: "collectDependencies example_host example_asset worker_manifest worker_pointers True =
      Inr ([(''manifest_version'', JNum 3),
            (''content_scripts'',
               JArr [JObj [(''js'', JArr [JStr ''dep:a.js'', JStr ''dep:./runtime/autoreload.js''])]]),
            (''background'',
               JObj [(''service_worker'', JStr ''dep:bg.js''), (''type'', JStr ''module'')])],
           example_asset\<lparr>dependencies :=
             [content_script_dep ''/ext/manifest.json'' worker_pointers 0 ''js'' 0 ''a.js'',
              autoreload_dep example_host,
              service_worker_dep True True ''bg.js'']\<rparr>)"
    by code_simp
  have v1: "map_of worker_manifest ''manifest_version'' = Some (JNum 3)"
    by (simp add: worker_manifest_def)
  have js1: "content_scripts_with_js worker_manifest"
    by (simp add: content_scripts_with_js_def worker_manifest_def declares_js_def)
  have declared: "map_of worker_manifest ''background''
        = Some (JObj [(''service_worker'', JStr ''bg.js''), (''type'', JStr ''module'')])
      \<and> map_of [(''service_worker'', JStr ''bg.js''), (''type'', JStr ''module'')] ''service_worker''
          = Some (JStr ''bg.js'')
      \<and> ''bg.js'' \<noteq> []"
    by (simp add: worker_manifest_def)
  from mv3_service_worker [OF run1 v1, THEN conjunct1, rule_format, OF declared] js1
  have w1: "\<exists>before.
      get_path
        (JObj [(''manifest_version'', JNum 3),
            (''content_scripts'',
               JArr [JObj [(''js'', JArr [JStr ''dep:a.js'', JStr ''dep:./runtime/autoreload.js''])]]),
            (''background'',
               JObj [(''service_worker'', JStr ''dep:bg.js''), (''type'', JStr ''module'')])])
        [Key ''background'', Key ''service_worker'']
          = Some (JStr ''dep:bg.js'')
      \<and> dependencies (example_asset\<lparr>dependencies :=
             [content_script_dep ''/ext/manifest.json'' worker_pointers 0 ''js'' 0 ''a.js'',
              autoreload_dep example_host,
              service_worker_dep True True ''bg.js'']\<rparr>) = before @
          [\<lparr>specifier = ''bg.js'', needsStableName = Some True, pipeline = Some ''mv3-bg-sw'',
            loc = None, resolveFrom = None,
            env = Some \<lparr>env_context = ''service-worker'', sourceType = Some ''module''\<rparr>\<rparr>]"
    by (auto simp: example_host_def)
  have run2: "collectDependencies example_host example_asset scripts_manifest scripts_pointers True =
      Inr ([(''manifest_version'', JNum 3),
           (''content_scripts'',
              JArr [JObj [(''css'', JArr [JStr ''dep:a.css'']),
                          (''js'', JArr [JStr ''dep:a.js'', JStr ''dep:b.js'',
                                         JStr ''dep:./runtime/autoreload.js''])],
                    JObj [(''css'', JArr [JStr ''dep:only.css''])]]),
           (''background'', JObj [(''service_worker'', JStr ''dep:./runtime/autoreload-bg.js'')])],
          example_asset\<lparr>dependencies :=
            asset_deps ''/ext/manifest.json'' scripts_pointers 0 ''css'' (Some [''a.css''])
            @ asset_deps ''/ext/manifest.json'' scripts_pointers 0 ''js'' (Some [''a.js'', ''b.js''])
            @ reload_deps example_host True (Some [''a.js'', ''b.js''])
            @ asset_deps ''/ext/manifest.json'' scripts_pointers 1 ''css'' (Some [''only.css''])
            @ [autoreload_bg_dep example_host
                 (Some \<lparr>env_context = ''service-worker'', sourceType = None\<rparr>)]\<rparr>)"
    by code_simp
  from w1 run1 run2 show ?thesis by simp
qed


text \<open>
  C9. No value of the document changes its structural type during dependency collection.
  Whenever \<open>collectDependencies\<close> returns, every path that leads to a value both in the document
  it was given and in the document it returns leads to values of one structural type (object,
  array, string, number, boolean or null): in particular a string leaf is only ever replaced by
  a string, the dependency token. This holds across all seven steps, the expansion of
  \<open>web_accessible_resources\<close> included. Moreover every path of the given document that does not
  start at \<open>web_accessible_resources\<close> still leads to a value in the returned one: the steps
  only rewrite leaves in place and append (the expansion of lines 184-216 is the one step that
  can shorten an array, when a pattern matches no file).
\<close>

theorem kinds_preserved:
  assumes run: "collectDependencies h a program ptrs hot = Inr (program', a')"
  shows "(\<forall>p v v'. get_path (JObj program) p = Some v \<and> get_path (JObj program') p = Some v'
            \<longrightarrow> kind_of v' = kind_of v)
       \<and> (\<forall>p v. get_path (JObj program) p = Some v
            \<and> (p = [] \<or> hd p \<noteq> Key ''web_accessible_resources'')
            \<longrightarrow> (\<exists>v'. get_path (JObj program') p = Some v' \<and> kind_of v' = kind_of v))"
proof -
  from run obtain isMV2 a1 program2 a2 needRuntimeBG program3 a3 program4 a4 program5 a5
      program6 a6
    where s2: "collect_content_scripts h ptrs hot program a1 = Inr (program2, a2, needRuntimeBG)"
      and s3: "collect_dictionaries h ptrs program2 a2 = Inr (program3, a3)"
      and s4: "collect_theme_icons h ptrs isMV2 program3 a3 = Inr (program4, a4)"
      and s5: "collect_web_accessible_resources h ptrs isMV2 program4 a4 = Inr (program5, a5)"
      and s6: "collect_dep_locs h ptrs program5 a5 = Inr (program6, a6)"
      and s7: "collect_background h isMV2 hot needRuntimeBG program6 a6 = Inr (program', a')"
    by (rule collectDependencies_InrE)
  have g4: "grows (JObj program) (JObj program4)"
    using content_scripts_grows [OF s2] dictionaries_grows [OF s3] theme_icons_grows [OF s4]
    by (blast intro: grows_trans)
  have g7: "grows (JObj program5) (JObj program')"
    using dep_locs_grows [OF s6] background_grows [OF s7] by (rule grows_trans)
  note sk = web_accessible_resources_same_kinds [OF s5]
  have war4: "map_of program4 ''web_accessible_resources'' = map_of program ''web_accessible_resources''"
    using content_scripts_frame [OF s2, of "''web_accessible_resources''"]
      dictionaries_frame [OF s3, of "''web_accessible_resources''"]
      theme_icons_frame [OF s4, of "''web_accessible_resources''"]
    by (simp add: browserActionName_def)
  have war7: "map_of program' ''web_accessible_resources'' = map_of program5 ''web_accessible_resources''"
    using dep_locs_frame [OF s6, of "''web_accessible_resources''"]
      background_frame [OF s7, of "''web_accessible_resources''"]
    by (simp add: DEP_LOCS_def)
  have other: "\<exists>v'. get_path (JObj program') p = Some v' \<and> kind_of v' = kind_of v"
    if g: "get_path (JObj program) p = Some v"
      and p: "p = [] \<or> hd p \<noteq> Key ''web_accessible_resources''" for p v
  proof (cases p)
    case Nil
    with g show ?thesis by auto
  next
    case (Cons s r)
    from g4 g obtain v4 where v4: "get_path (JObj program4) p = Some v4"
      and k4: "kind_of v4 = kind_of v"
      unfolding grows_def by blast
    have "get_path (JObj program5) p = get_path (JObj program4) p"
    proof (cases s)
      case (Index i)
      then show ?thesis by (simp add: Cons)
    next
      case (Key x)
      with p Cons have "x \<noteq> ''web_accessible_resources''" by simp
      from web_accessible_resources_frame [OF s5 this] show ?thesis
        by (simp add: Cons Key)
    qed
    with v4 have "get_path (JObj program5) p = Some v4" by simp
    with g7 k4 show ?thesis unfolding grows_def by fastforce
  qed
  have war: "kind_of v' = kind_of v"
    if g: "get_path (JObj program) p = Some v" and g': "get_path (JObj program') p = Some v'"
      and p: "p \<noteq> []" "hd p = Key ''web_accessible_resources''" for p v v'
  proof -
    from p obtain r where pr: "p = Key ''web_accessible_resources'' # r" by (cases p) auto
    have "get_path (JObj program4) p = Some v" using g war4 by (simp add: pr)
    moreover have "get_path (JObj program5) p = Some v'" using g' war7 by (simp add: pr)
    ultimately show ?thesis using sk unfolding same_kinds_def by blast
  qed
  show ?thesis
  proof (intro conjI allI impI)
    fix p v v'
    assume "get_path (JObj program) p = Some v \<and> get_path (JObj program') p = Some v'"
    then have g: "get_path (JObj program) p = Some v" and g': "get_path (JObj program') p = Some v'"
      by simp_all
    show "kind_of v' = kind_of v"
    proof (cases "p = [] \<or> hd p \<noteq> Key ''web_accessible_resources''")
      case True
      from other [OF g True] g' show ?thesis by simp
    next
      case False
      with war [OF g g'] show ?thesis by simp
    qed
  next
    fix p v
    assume "get_path (JObj program) p = Some v
        \<and> (p = [] \<or> hd p \<noteq> Key ''web_accessible_resources'')"
    then show "\<exists>v'. get_path (JObj program') p = Some v' \<and> kind_of v' = kind_of v"
      using other by blast
  qed
qed

theorem kinds_preserved_witness:
  "\<exists>program' a'.
      collectDependencies example_host example_asset worker_manifest worker_pointers True
        = Inr (program', a')
      \<and> get_path (JObj worker_manifest) [Key ''content_scripts'', Index 0, Key ''js'', Index 0]
          = Some (JStr ''a.js'')
      \<and> (\<exists>v'. get_path (JObj program') [Key ''content_scripts'', Index 0, Key ''js'', Index 0]
                 = Some v' \<and> kind_of v' = KString)"
proof -
  have run: "collectDependencies example_host example_asset worker_manifest worker_pointers True =
      Inr ([(''manifest_version'', JNum 3),
            (''content_scripts'',
               JArr [JObj [(''js'', JArr [JStr ''dep:a.js'', JStr ''dep:./runtime/autoreload.js''])]]),
            (''background'',
               JObj [(''service_worker'', JStr ''dep:bg.js''), (''type'', JStr ''module'')])],
           example_asset\<lparr>dependencies :=
             [content_script_dep ''/ext/manifest.json'' worker_pointers 0 ''js'' 0 ''a.js'',
              autoreload_dep example_host,
              service_worker_dep True True ''bg.js'']\<rparr>)"
    by code_simp
  have before: "get_path (JObj worker_manifest) [Key ''content_scripts'', Index 0, Key ''js'', Index 0]
      = Some (JStr ''a.js'')"
    by (simp add: worker_manifest_def)
  from kinds_preserved [OF run, THEN conjunct2, rule_format,
      of "[Key ''content_scripts'', Index 0, Key ''js'', Index 0]" "JStr ''a.js''"] before
  have "\<exists>v'. get_path
        (JObj [(''manifest_version'', JNum 3),
            (''content_scripts'',
               JArr [JObj [(''js'', JArr [JStr ''dep:a.js'', JStr ''dep:./runtime/autoreload.js''])]]),
            (''background'',
               JObj [(''service_worker'', JStr ''dep:bg.js''), (''type'', JStr ''module'')])])
        [Key ''content_scripts'', Index 0, Key ''js'', Index 0] = Some v' \<and> kind_of v' = KString"
    by simp
  with run before show ?thesis by blast
qed


text \<open>
  C3, as the code has it. For every policy string whose \<^verbatim>\<open>script-src\<close> directive already
  holds the token \<^verbatim>\<open>'unsafe-eval'\<close>, the patch adds nothing and removes nothing: the
  returned policy, parsed again, is the parsed input. So \<^verbatim>\<open>script-src\<close> keeps its token
  list, with \<^verbatim>\<open>'unsafe-eval'\<close> as many times as the input has it (once when the input has
  it once), and every other directive keeps its token list, unchanged and in the original
  order.
\<close>

theorem patch_with_unsafe_eval:
  assumes "directive p ''script-src'' = Some srcs" and "unsafe_eval \<in> set srcs"
  shows "parseCSP (cspPatchHMR (Some p)) = parseCSP p
       \<and> directive (cspPatchHMR (Some p)) ''script-src'' = Some srcs"
proof -
  from patch_present [OF assms] parse_serialize [OF parseCSP_well_formed, of p]
  have "parseCSP (cspPatchHMR (Some p)) = parseCSP p" by simp
  with assms(1) show ?thesis by (simp add: directive_def)
qed

theorem patch_with_unsafe_eval_witness:
  "directive ''script-src 'self' 'unsafe-eval';default-src 'none';'' ''script-src''
     = Some [self_src, unsafe_eval]
   \<and> unsafe_eval \<in> set [self_src, unsafe_eval]
   \<and> parseCSP (cspPatchHMR (Some ''script-src 'self' 'unsafe-eval';default-src 'none';''))
       = parseCSP ''script-src 'self' 'unsafe-eval';default-src 'none';''
   \<and> directive (cspPatchHMR (Some ''script-src 'self' 'unsafe-eval';default-src 'none';'')) ''script-src''
       = Some [self_src, unsafe_eval]"
proof -
  have h1: "directive ''script-src 'self' 'unsafe-eval';default-src 'none';'' ''script-src''
      = Some [self_src, unsafe_eval]"
    by code_simp
  have h2: "unsafe_eval \<in> set [self_src, unsafe_eval]" by simp
  from patch_with_unsafe_eval [OF h1 h2] h1 h2 show ?thesis by simp
qed

text \<open>
  The claim C3 as it is written asks for exactly one \<^verbatim>\<open>'unsafe-eval'\<close> in the patched
  \<^verbatim>\<open>script-src\<close>. A policy that holds the token twice keeps it twice: lines 306 to 308
  only ever add the token, and nothing in the patch removes one.
\<close>

theorem patch_with_unsafe_eval_counterexample:
  "directive ''script-src 'self' 'unsafe-eval' 'unsafe-eval';'' ''script-src''
     = Some [self_src, unsafe_eval, unsafe_eval]
   \<and> cspPatchHMR (Some ''script-src 'self' 'unsafe-eval' 'unsafe-eval';'')
       = ''script-src 'self' 'unsafe-eval' 'unsafe-eval';''
   \<and> directive (cspPatchHMR (Some ''script-src 'self' 'unsafe-eval' 'unsafe-eval';'')) ''script-src''
       = Some [self_src, unsafe_eval, unsafe_eval]
   \<and> count_list [self_src, unsafe_eval, unsafe_eval] unsafe_eval = 2"
proof -
  have "directive ''script-src 'self' 'unsafe-eval' 'unsafe-eval';'' ''script-src''
      = Some [self_src, unsafe_eval, unsafe_eval]"
    by code_simp
  moreover have out: "cspPatchHMR (Some ''script-src 'self' 'unsafe-eval' 'unsafe-eval';'')
      = ''script-src 'self' 'unsafe-eval' 'unsafe-eval';''"
    by code_simp
  moreover have "directive (cspPatchHMR (Some ''script-src 'self' 'unsafe-eval' 'unsafe-eval';'')) ''script-src''
      = Some [self_src, unsafe_eval, unsafe_eval]"
    unfolding out by code_simp
  moreover have "count_list [self_src, unsafe_eval, unsafe_eval] unsafe_eval = 2"
    by (simp add: self_src_def unsafe_eval_def)
  ultimately show ?thesis by simp
qed
end
